theory Spec2Isabelle
  imports Main "HOL-Library.Sublist"
begin

section \<open>JavaScript values and listener code\<close>

text \<open>
  The module \<^verbatim>\<open>src/cancel-source.js\<close> is a set of closures over one mutable object
  per cancel source. It calls back into code it does not own (the listeners), and that
  code may call the module again while a notification is running. The embedding
  therefore has three parts: the values that flow through the module, the code of a
  listener, and a heap of the per-source objects.

  A value is a JavaScript value as far as the module looks at it: the module tests
  truthiness (\<^verbatim>\<open>reason || new Error(...)\<close>, \<^verbatim>\<open>if (data.reason)\<close>), compares listeners
  with \<^verbatim>\<open>!==\<close>, and calls listeners. Numbers are integers plus \<open>NaN\<close> (the one number that
  is falsy besides zero and the one value that is \<^verbatim>\<open>!==\<close> to itself).

  Objects and functions have an identity, and \<^verbatim>\<open>!==\<close> compares it, so every object value
  carries one. \<open>ObjV n\<close> is a non-callable object with identity \<open>n\<close>. \<open>ErrorV i m\<close> is an
  \<^verbatim>\<open>Error\<close> object with message \<open>m\<close>; its identity \<open>i\<close> says which evaluation of
  \<^verbatim>\<open>new Error(m)\<close> made it: \<open>Caller n\<close> is the \<open>n\<close>-th object the caller made, and
  \<open>DefaultOf p\<close> is the object line 59 makes for the source at address \<open>p\<close> (at most one for
  each source, because \<^verbatim>\<open>once\<close> lets the body of \<^verbatim>\<open>cancel\<close> run once). \<open>TypeErrorV k m\<close> is the
  \<open>k\<close>-th \<^verbatim>\<open>TypeError\<close> the engine has raised; the world counts them. Two error objects with
  the same message are therefore different values, as they are for line 109.

  A function value is either \<open>CancelFn p\<close>, the \<^verbatim>\<open>cancel\<close> closure of the source at
  address \<open>p\<close> (the result of \<^verbatim>\<open>once(...)\<close> on line 58), or \<open>UserFn n body\<close>, a function of
  the caller with identity \<open>n\<close> whose body is a finite script of calls into the module's
  public surface. Scripts are finite and closed, so a listener always returns or throws;
  a listener that loops forever is outside the model. A script names the values it uses
  outright, so it may name an error object that the module or the engine has not made
  yet. No program can do that: the scripts are more than the programs, and what is
  proved of every script holds of every program.
\<close>

datatype identity = Caller nat | DefaultOf nat

datatype val =
    Undefined
  | Null
  | BoolV bool
  | NumV int
  | NaN
  | StrV string
  | ErrorV identity string
  | TypeErrorV nat string
  | ObjV nat
  | CancelFn nat
  | UserFn nat "action list"
and action =
    Throw val
  | CallCancel nat "val list"
  | CallSubscribe nat val
  | CallUnsubscribe nat val
  | CallThrowIfCanceled nat

text \<open>JavaScript's \<^verbatim>\<open>ToBoolean\<close>: what \<^verbatim>\<open>if (v)\<close>, \<^verbatim>\<open>v || w\<close> and \<^verbatim>\<open>Boolean(v)\<close> test.\<close>

fun truthy :: "val \<Rightarrow> bool" where
  "truthy Undefined = False"
| "truthy Null = False"
| "truthy (BoolV b) = b"
| "truthy (NumV n) = (n \<noteq> 0)"
| "truthy NaN = False"
| "truthy (StrV s) = (s \<noteq> [])"
| "truthy (ErrorV i m) = True"
| "truthy (TypeErrorV k m) = True"
| "truthy (ObjV n) = True"
| "truthy (CancelFn p) = True"
| "truthy (UserFn n body) = True"

text \<open>\<^verbatim>\<open>typeof v === 'function'\<close>.\<close>

fun is_function :: "val \<Rightarrow> bool" where
  "is_function (CancelFn p) = True"
| "is_function (UserFn n body) = True"
| "is_function v = False"

text \<open>\<^verbatim>\<open>a !== b\<close>: identity on objects and functions (two values of these kinds are
  equal exactly when their identities are), equality on primitives, and \<^verbatim>\<open>NaN !== NaN\<close>
  is true.\<close>

definition strict_neq :: "val \<Rightarrow> val \<Rightarrow> bool" where
  "strict_neq a b = (a \<noteq> b \<or> a = NaN)"

text \<open>The first actual argument of a call; a missing argument reads as \<^verbatim>\<open>undefined\<close>.\<close>

fun arg0 :: "val list \<Rightarrow> val" where
  "arg0 [] = Undefined"
| "arg0 (a # rest) = a"

text \<open>Line 59, evaluated by the \<^verbatim>\<open>cancel\<close> of the source at address \<open>p\<close>:
  \<^verbatim>\<open>reason || new Error('Operation Canceled')\<close>.\<close>

definition reason_or_default :: "nat \<Rightarrow> val \<Rightarrow> val" where
  "reason_or_default p r =
     (if truthy r then r else ErrorV (DefaultOf p) ''Operation Canceled'')"

section \<open>The heap of cancel sources\<close>

text \<open>
  Every call of \<^verbatim>\<open>createCancelSource\<close> allocates one object \<^verbatim>\<open>data\<close> (lines 53 to 56) and
  one closure variable \<^verbatim>\<open>callback\<close> of \<^verbatim>\<open>once\<close> (line 13). The record below holds both:
  \<open>callback\<close> is true while \<^verbatim>\<open>typeof callback === 'function'\<close> holds and false once line 20
  has set it to \<^verbatim>\<open>null\<close>. The token and the \<^verbatim>\<open>cancel\<close> function of a source are handles on
  this record, so both are represented by its address in \<open>pairs\<close>.

  \<open>timers\<close> is the queue of \<^verbatim>\<open>setTimeout(() => { throw error; })\<close> callbacks (lines 39 to
  41), each represented by the error it will throw. \<open>type_errors\<close> is the number of
  \<^verbatim>\<open>TypeError\<close> objects the engine has made so far, which is the identity of the next
  one. \<open>calls\<close> is a ghost trace: one
  \<open>Invoke\<close> event for every evaluation of \<^verbatim>\<open>listener(reason)\<close> on line 35, with the call
  site that made it, the listener, the reason, and the events of the calls nested
  inside it.
\<close>

datatype 'a outcome = Returns 'a | Throws val

datatype subscription = NoopSubscription | ListenerSubscription nat val

datatype origin = ByCancel nat | BySubscribe nat

datatype event = Invoke origin val val "event list"

record data =
  reason :: val
  listeners :: "val list"
  callback :: bool

record world =
  pairs :: "data list"
  timers :: "val list"
  type_errors :: nat
  calls :: "event list"

definition lookup :: "world \<Rightarrow> nat \<Rightarrow> data option" where
  "lookup w p = (if p < length (pairs w) then Some (pairs w ! p) else None)"

definition store :: "nat \<Rightarrow> data \<Rightarrow> world \<Rightarrow> world" where
  "store p d w = w\<lparr>pairs := (pairs w)[p := d]\<rparr>"

text \<open>Lines 39 to 41: queue a callback that throws \<open>error\<close>.\<close>

definition setTimeout_throw :: "val \<Rightarrow> world \<Rightarrow> world" where
  "setTimeout_throw error w = w\<lparr>timers := timers w @ [error]\<rparr>"

text \<open>The event loop runs the oldest queued callback, which throws its error.\<close>

definition tick :: "world \<Rightarrow> unit outcome \<times> world" where
  "tick w =
     (case timers w of
        [] \<Rightarrow> (Returns (), w)
      | error # rest \<Rightarrow> (Throws error, w\<lparr>timers := rest\<rparr>))"

text \<open>The ghost trace of one call \<^verbatim>\<open>listener(reason)\<close> that started in world \<open>w\<close> and
  ended in \<open>w'\<close>: the events the call itself appended become its nested events.\<close>

definition record_call :: "origin \<Rightarrow> val \<Rightarrow> val \<Rightarrow> world \<Rightarrow> world \<Rightarrow> world" where
  "record_call og listener r w w' =
     w'\<lparr>calls := calls w @ [Invoke og listener r (drop (length (calls w)) (calls w'))]\<rparr>"

section \<open>The token's queries\<close>

text \<open>Lines 72 to 75 and 80 to 85. A handle always refers to an allocated source in
  JavaScript; the \<open>None\<close> branches below only make the functions total.\<close>

definition isCanceled :: "nat \<Rightarrow> world \<Rightarrow> bool" where
  "isCanceled p w = (case lookup w p of None \<Rightarrow> False | Some d \<Rightarrow> truthy (reason d))"

definition throwIfCanceled :: "nat \<Rightarrow> world \<Rightarrow> unit outcome" where
  "throwIfCanceled p w =
     (case lookup w p of
        None \<Rightarrow> Returns ()
      | Some d \<Rightarrow> if truthy (reason d) then Throws (reason d) else Returns ())"

text \<open>Lines 100 and 108 to 110: the two kinds of subscription object.\<close>

fun unsubscribe :: "subscription \<Rightarrow> world \<Rightarrow> world" where
  "unsubscribe NoopSubscription w = w"
| "unsubscribe (ListenerSubscription p listener) w =
     (case lookup w p of
        None \<Rightarrow> w
      | Some d \<Rightarrow>
          store p (d\<lparr>listeners := filter (\<lambda>el. strict_neq el listener) (listeners d)\<rparr>) w)"

section \<open>Cancellation, notification and subscription\<close>

text \<open>
  The functions below call each other as the source does:
  \<^item> \<open>invokeListener\<close> is lines 31 to 43: the call \<^verbatim>\<open>listener(reason)\<close> in a
    \<^verbatim>\<open>try\<close>, and the \<^verbatim>\<open>catch\<close> that defers the error;
  \<^item> \<open>call\<close> is the call expression \<^verbatim>\<open>f(...args)\<close>: a new \<^verbatim>\<open>TypeError\<close> object when \<open>f\<close>
    is not a function;
  \<^item> \<open>cancel\<close> is the function returned by \<^verbatim>\<open>once\<close> (lines 15 to 23) around the arrow
    function of lines 58 to 61: the guard, \<^verbatim>\<open>callback = null\<close>, then the body, which
    stores the reason and runs \<^verbatim>\<open>forEach\<close>;
  \<^item> \<open>forEach_invokeListener\<close> is \<^verbatim>\<open>data.listeners.forEach(invokeListener(data.reason))\<close>.
    The loop runs over the listeners as they were at its start: \<^verbatim>\<open>forEach\<close> reads the
    array's length once, line 109 replaces the array instead of changing it, and the
    \<^verbatim>\<open>push\<close> of line 105 is only reached while \<^verbatim>\<open>data.reason\<close> is falsy, which it no
    longer is when the loop starts;
  \<^item> \<open>subscribe\<close> is lines 93 to 113;
  \<^item> \<open>run_body\<close> runs the script of a caller's function, stopping at the first
    exception.
\<close>

function
  invokeListener :: "origin \<Rightarrow> val \<Rightarrow> val \<Rightarrow> world \<Rightarrow> unit outcome \<times> world" and
  call :: "val \<Rightarrow> val list \<Rightarrow> world \<Rightarrow> unit outcome \<times> world" and
  cancel :: "nat \<Rightarrow> val list \<Rightarrow> world \<Rightarrow> unit outcome \<times> world" and
  forEach_invokeListener ::
    "origin \<Rightarrow> val \<Rightarrow> val list \<Rightarrow> world \<Rightarrow> unit outcome \<times> world" and
  subscribe :: "nat \<Rightarrow> val \<Rightarrow> world \<Rightarrow> subscription outcome \<times> world" and
  run_body :: "action list \<Rightarrow> world \<Rightarrow> unit outcome \<times> world"
where
  "invokeListener og r listener w =
     (case call listener [r] w of
        (Returns u, w') \<Rightarrow> (Returns (), record_call og listener r w w')
      | (Throws error, w') \<Rightarrow>
          (Returns (), setTimeout_throw error (record_call og listener r w w')))"
| "call f args w =
     (case f of
        CancelFn p \<Rightarrow> cancel p args w
      | UserFn n body \<Rightarrow> run_body body w
      | _ \<Rightarrow>
          (Throws (TypeErrorV (type_errors w) ''listener is not a function''),
           w\<lparr>type_errors := Suc (type_errors w)\<rparr>))"
| "cancel p args w =
     (case lookup w p of
        None \<Rightarrow> (Returns (), w)
      | Some d \<Rightarrow>
          if callback d then
            let r = reason_or_default p (arg0 args);
                w' = store p (d\<lparr>callback := False, reason := r\<rparr>) w
            in forEach_invokeListener (ByCancel p) r (listeners d) w'
          else (Returns (), w))"
| "forEach_invokeListener og r [] w = (Returns (), w)"
| "forEach_invokeListener og r (listener # rest) w =
     (case invokeListener og r listener w of
        (Returns u, w') \<Rightarrow> forEach_invokeListener og r rest w'
      | (Throws error, w') \<Rightarrow> (Throws error, w'))"
| "subscribe p listener w =
     (case lookup w p of
        None \<Rightarrow> (Returns NoopSubscription, w)
      | Some d \<Rightarrow>
          if truthy (reason d) then
            (case invokeListener (BySubscribe p) (reason d) listener w of
               (Returns u, w') \<Rightarrow> (Returns NoopSubscription, w')
             | (Throws error, w') \<Rightarrow> (Throws error, w'))
          else
            (Returns (ListenerSubscription p listener),
             store p (d\<lparr>listeners := listeners d @ [listener]\<rparr>) w))"
| "run_body [] w = (Returns (), w)"
| "run_body (Throw error # rest) w = (Throws error, w)"
| "run_body (CallCancel p args # rest) w =
     (case cancel p args w of
        (Returns u, w') \<Rightarrow> run_body rest w'
      | (Throws error, w') \<Rightarrow> (Throws error, w'))"
| "run_body (CallSubscribe p listener # rest) w =
     (case subscribe p listener w of
        (Returns s, w') \<Rightarrow> run_body rest w'
      | (Throws error, w') \<Rightarrow> (Throws error, w'))"
| "run_body (CallUnsubscribe p listener # rest) w =
     run_body rest (unsubscribe (ListenerSubscription p listener) w)"
| "run_body (CallThrowIfCanceled p # rest) w =
     (case throwIfCanceled p w of
        Returns u \<Rightarrow> run_body rest w
      | Throws error \<Rightarrow> (Throws error, w))"
  by pat_completeness auto

text \<open>
  \<open>delivery og r l w\<close> is the world that one evaluation of lines 33 to 41 leaves, started
  in \<open>w\<close>, by the kind of value the listener \<open>l\<close> is. If \<open>l\<close> is a function of the caller,
  its body has run; if it is the \<^verbatim>\<open>cancel\<close> of a source, that \<^verbatim>\<open>cancel\<close> has run with the
  reason as its argument; if it is anything else, the engine has made a \<^verbatim>\<open>TypeError\<close>. In
  each case the call of line 35 is in the trace, and an error that came out of it has
  been queued by lines 39 to 41.
\<close>

definition delivery :: "origin \<Rightarrow> val \<Rightarrow> val \<Rightarrow> world \<Rightarrow> world" where
  "delivery og r l w =
     (case l of
        UserFn n body \<Rightarrow>
          (case run_body body w of
             (Returns u, w') \<Rightarrow> record_call og l r w w'
           | (Throws error, w') \<Rightarrow> setTimeout_throw error (record_call og l r w w'))
      | CancelFn q \<Rightarrow> record_call og l r w (snd (cancel q [r] w))
      | _ \<Rightarrow>
          setTimeout_throw (TypeErrorV (type_errors w) ''listener is not a function'')
            (record_call og l r w (w\<lparr>type_errors := Suc (type_errors w)\<rparr>)))"

section \<open>The factory and the module's exports\<close>

text \<open>Line 63: \<^verbatim>\<open>parentTokens.map((token) => token.subscribe(cancel))\<close>, in order of
  the arguments.\<close>

fun map_subscribe ::
  "nat list \<Rightarrow> val \<Rightarrow> world \<Rightarrow> subscription list outcome \<times> world" where
  "map_subscribe [] listener w = (Returns [], w)"
| "map_subscribe (token # rest) listener w =
     (case subscribe token listener w of
        (Returns s, w') \<Rightarrow>
          (case map_subscribe rest listener w' of
             (Returns ss, w'') \<Rightarrow> (Returns (s # ss), w'')
           | (Throws error, w'') \<Rightarrow> (Throws error, w''))
      | (Throws error, w') \<Rightarrow> (Throws error, w'))"

text \<open>Lines 51 to 117. The new source gets the next free address; the result is the
  object \<^verbatim>\<open>{ token, cancel }\<close>, a pair of the token's handle and the \<^verbatim>\<open>cancel\<close>
  function.\<close>

definition createCancelSource :: "nat list \<Rightarrow> world \<Rightarrow> (nat \<times> val) outcome \<times> world" where
  "createCancelSource parentTokens w =
     (let p = length (pairs w);
          w1 = w\<lparr>pairs := pairs w @ [\<lparr>reason = Null, listeners = [], callback = True\<rparr>]\<rparr>
      in case map_subscribe parentTokens (CancelFn p) w1 of
           (Returns ss, w2) \<Rightarrow> (Returns (p, CancelFn p), w2)
         | (Throws error, w2) \<Rightarrow> (Throws error, w2))"

text \<open>Line 5 runs when the module is loaded: the first source ever created is the one
  behind \<^verbatim>\<open>emptyToken\<close>, and line 119 exports its token only.\<close>

definition module_init :: world where
  "module_init = snd (createCancelSource [] \<lparr>pairs = [], timers = [], type_errors = 0, calls = []\<rparr>)"

definition emptyToken :: nat where
  "emptyToken = 0"

text \<open>
  What a program that imports the module can do with it, one operation at a time:
  the exported \<^verbatim>\<open>create\<close>, the \<^verbatim>\<open>cancel\<close> functions and tokens it has been handed, the
  subscriptions it holds, and letting the event loop run a queued timer.
\<close>

datatype op =
    Create "nat list"
  | Cancel nat "val list"
  | Subscribe nat val
  | Unsubscribe subscription
  | IsCanceled nat
  | ThrowIfCanceled nat
  | Tick

fun step :: "op \<Rightarrow> world \<Rightarrow> world" where
  "step (Create parentTokens) w = snd (createCancelSource parentTokens w)"
| "step (Cancel p args) w = snd (cancel p args w)"
| "step (Subscribe p listener) w = snd (subscribe p listener w)"
| "step (Unsubscribe s) w = unsubscribe s w"
| "step (IsCanceled p) w = w"
| "step (ThrowIfCanceled p) w = w"
| "step Tick w = snd (tick w)"

fun run_ops :: "op list \<Rightarrow> world \<Rightarrow> world" where
  "run_ops [] w = w"
| "run_ops (x # xs) w = run_ops xs (step x w)"

text \<open>
  The \<^verbatim>\<open>cancel\<close> function of a source is a value only its creator receives. A piece of
  code \<^emph>\<open>holds\<close> the \<^verbatim>\<open>cancel\<close> of source \<open>e\<close> when that function occurs in it, or when it
  calls it.
\<close>

fun holds_cancel :: "nat \<Rightarrow> val \<Rightarrow> bool" and
  action_holds_cancel :: "nat \<Rightarrow> action \<Rightarrow> bool" where
  "holds_cancel e (CancelFn p) = (p = e)"
| "holds_cancel e (UserFn n body) = (\<exists>a \<in> set body. action_holds_cancel e a)"
| "holds_cancel e Undefined = False"
| "holds_cancel e Null = False"
| "holds_cancel e (BoolV b) = False"
| "holds_cancel e (NumV n) = False"
| "holds_cancel e NaN = False"
| "holds_cancel e (StrV s) = False"
| "holds_cancel e (ErrorV i m) = False"
| "holds_cancel e (TypeErrorV k m) = False"
| "holds_cancel e (ObjV n) = False"
| "action_holds_cancel e (Throw v) = holds_cancel e v"
| "action_holds_cancel e (CallCancel p args) = (p = e \<or> (\<exists>v \<in> set args. holds_cancel e v))"
| "action_holds_cancel e (CallSubscribe p listener) = holds_cancel e listener"
| "action_holds_cancel e (CallUnsubscribe p listener) = holds_cancel e listener"
| "action_holds_cancel e (CallThrowIfCanceled p) = False"

fun op_holds_cancel :: "nat \<Rightarrow> op \<Rightarrow> bool" where
  "op_holds_cancel e (Cancel p args) = (p = e \<or> (\<exists>v \<in> set args. holds_cancel e v))"
| "op_holds_cancel e (Subscribe p listener) = holds_cancel e listener"
| "op_holds_cancel e (Unsubscribe (ListenerSubscription p listener)) = holds_cancel e listener"
| "op_holds_cancel e x = False"

text \<open>Reading the trace: the call an event records, and whether any call in an event's
  tree was made on behalf of source \<open>e\<close> (by its \<^verbatim>\<open>cancel\<close> or by \<^verbatim>\<open>subscribe\<close> on its
  token).\<close>

fun origin_source :: "origin \<Rightarrow> nat" where
  "origin_source (ByCancel p) = p"
| "origin_source (BySubscribe p) = p"

fun invoked :: "event \<Rightarrow> origin \<times> val \<times> val" where
  "invoked (Invoke og listener r nested) = (og, listener, r)"

fun notified_by :: "nat \<Rightarrow> event \<Rightarrow> bool" where
  "notified_by e (Invoke og listener r nested) =
     (origin_source og = e \<or> (\<exists>ev \<in> set nested. notified_by e ev))"

section \<open>Relations between an earlier and a later world\<close>

text \<open>
  The number of sources whose \<open>callback\<close> is still a function is the measure of the
  termination proof below.
\<close>

abbreviation (input) exec_dom where
  "exec_dom \<equiv> invokeListener_call_cancel_forEach_invokeListener_subscribe_run_body_dom"

definition live_count :: "world \<Rightarrow> nat" where
  "live_count w = length (filter callback (pairs w))"

text \<open>
  What every piece of code of the module preserves, whatever the listeners do. For one
  source, from an earlier state \<open>d\<close> to a later state \<open>d'\<close>: a cleared \<open>callback\<close> is never
  set again; once it is cleared the reason is frozen; once the reason is truthy it stays
  truthy and the listeners can only be filtered; and a source does not get into the state
  "\<open>callback\<close> cleared, reason falsy". \<open>advances\<close> says this of every source of the earlier
  world, and \<open>progresses\<close> adds what holds inside one synchronous call: no source is
  allocated, the timer queue only grows at its end, and the count of \<^verbatim>\<open>TypeError\<close> objects
  does not go down (so the identity of a new one is not in use).
\<close>

definition data_advances :: "data \<Rightarrow> data \<Rightarrow> bool" where
  "data_advances d d' \<longleftrightarrow>
     (callback d' \<longrightarrow> callback d) \<and>
     (\<not> callback d \<longrightarrow> reason d' = reason d) \<and>
     (truthy (reason d) \<longrightarrow> truthy (reason d') \<and> subseq (listeners d') (listeners d)) \<and>
     (callback d \<or> truthy (reason d) \<longrightarrow> callback d' \<or> truthy (reason d'))"

definition advances :: "world \<Rightarrow> world \<Rightarrow> bool" where
  "advances w w' \<longleftrightarrow>
     length (pairs w) \<le> length (pairs w') \<and>
     (\<forall>p < length (pairs w). data_advances (pairs w ! p) (pairs w' ! p))"

definition progresses :: "world \<Rightarrow> world \<Rightarrow> bool" where
  "progresses w w' \<longleftrightarrow>
     advances w w' \<and> length (pairs w') = length (pairs w) \<and> prefix (timers w) (timers w') \<and>
     type_errors w \<le> type_errors w'"

text \<open>
  The state of a source that can never be canceled: its \<open>callback\<close> is still a function
  and its reason still \<^verbatim>\<open>null\<close>, no listener of any source holds its \<^verbatim>\<open>cancel\<close>, and no call
  in the trace was made on its behalf.
\<close>

definition never_cancelable :: "nat \<Rightarrow> world \<Rightarrow> bool" where
  "never_cancelable e w \<longleftrightarrow>
     (\<exists>d. lookup w e = Some d \<and> callback d \<and> reason d = Null) \<and>
     (\<forall>d \<in> set (pairs w). \<forall>l \<in> set (listeners d). \<not> holds_cancel e l) \<and>
     (\<forall>ev \<in> set (calls w). \<not> notified_by e ev)"

text \<open>
  The factory links a child to a parent by subscribing the child's \<^verbatim>\<open>cancel\<close> to the
  parent's token (line 63). The only code that can take a listener \<open>x\<close> out of a list is
  an \<^verbatim>\<open>unsubscribe\<close> of a subscription of \<open>x\<close> itself; \<open>unsubscribes x\<close> finds such a call in
  a piece of code, and \<open>unsubscribe_free x\<close> says no listener of the world contains one.
  \<open>cascades q c\<close> is the state of a linked pair: either the parent \<open>q\<close> is not canceled and
  still has the \<^verbatim>\<open>cancel\<close> of \<open>c\<close> among its listeners, or the child \<open>c\<close> is canceled.
\<close>

fun unsubscribes :: "val \<Rightarrow> val \<Rightarrow> bool" and
  action_unsubscribes :: "val \<Rightarrow> action \<Rightarrow> bool" where
  "unsubscribes x (UserFn n body) = (\<exists>a \<in> set body. action_unsubscribes x a)"
| "unsubscribes x (CancelFn p) = False"
| "unsubscribes x Undefined = False"
| "unsubscribes x Null = False"
| "unsubscribes x (BoolV b) = False"
| "unsubscribes x (NumV n) = False"
| "unsubscribes x NaN = False"
| "unsubscribes x (StrV s) = False"
| "unsubscribes x (ErrorV i m) = False"
| "unsubscribes x (TypeErrorV k m) = False"
| "unsubscribes x (ObjV n) = False"
| "action_unsubscribes x (Throw v) = unsubscribes x v"
| "action_unsubscribes x (CallCancel p args) = (\<exists>v \<in> set args. unsubscribes x v)"
| "action_unsubscribes x (CallSubscribe p listener) = unsubscribes x listener"
| "action_unsubscribes x (CallUnsubscribe p listener) =
     (listener = x \<or> unsubscribes x listener)"
| "action_unsubscribes x (CallThrowIfCanceled p) = False"

fun op_unsubscribes :: "val \<Rightarrow> op \<Rightarrow> bool" where
  "op_unsubscribes x (Cancel p args) = (\<exists>v \<in> set args. unsubscribes x v)"
| "op_unsubscribes x (Subscribe p listener) = unsubscribes x listener"
| "op_unsubscribes x (Unsubscribe (ListenerSubscription p listener)) =
     (listener = x \<or> unsubscribes x listener)"
| "op_unsubscribes x y = False"

definition unsubscribe_free :: "val \<Rightarrow> world \<Rightarrow> bool" where
  "unsubscribe_free x w \<longleftrightarrow>
     (\<forall>d \<in> set (pairs w). \<forall>l \<in> set (listeners d). \<not> unsubscribes x l)"

definition cascades :: "nat \<Rightarrow> nat \<Rightarrow> world \<Rightarrow> bool" where
  "cascades q c w \<longleftrightarrow>
     (\<exists>dq dc. lookup w q = Some dq \<and> lookup w c = Some dc \<and>
        (callback dq \<and> \<not> truthy (reason dq) \<and> CancelFn c \<in> set (listeners dq) \<and>
           (callback dc \<or> truthy (reason dc)) \<or>
         \<not> callback dc \<and> truthy (reason dc)))"

section \<open>Worlds used as examples\<close>

text \<open>\<open>fresh_pair\<close> is the world after the module is loaded and \<^verbatim>\<open>create()\<close> has been
  called once: the source behind \<^verbatim>\<open>emptyToken\<close> at address 0 and a new source at
  address 1.\<close>

definition fresh_pair :: world where
  "fresh_pair = snd (createCancelSource [] module_init)"

text \<open>\<open>canceled_pair\<close>: source 1 canceled with \<^verbatim>\<open>Error('Timeout')\<close>.\<close>

definition canceled_pair :: world where
  "canceled_pair = snd (cancel 1 [ErrorV (Caller 0) ''Timeout''] fresh_pair)"

text \<open>\<open>two_listeners\<close>: two spies subscribed to the token of source 1.\<close>

definition two_listeners :: world where
  "two_listeners = run_ops [Subscribe 1 (UserFn 1 []), Subscribe 1 (UserFn 2 [])] fresh_pair"


text \<open>\<open>reentrant_listener\<close>: source 1 is a parent of source 2 (\<^verbatim>\<open>create(parent.token)\<close>);
  the first listener of source 2 calls the \<^verbatim>\<open>cancel\<close> of source 2 again and then cancels
  the parent, whose cascade calls the \<^verbatim>\<open>cancel\<close> of source 2 a third time.\<close>

definition reentrant_listener :: world where
  "reentrant_listener =
     run_ops [Create [], Create [1],
              Subscribe 2 (UserFn 1 [CallCancel 2 [StrV ''again''], CallCancel 1 [StrV ''parent'']]),
              Subscribe 2 (UserFn 2 [])] module_init"

text \<open>\<open>three_sources\<close>: the module loaded and \<^verbatim>\<open>create()\<close> called twice, which gives the
  independent sources 1 and 2. \<open>two_effects\<close>: two listeners on source 1, each of which
  cancels source 2 with a reason of its own, so that the reason of source 2 tells which
  of them ran first.\<close>

definition three_sources :: world where
  "three_sources = run_ops [Create [], Create []] module_init"

definition two_effects :: world where
  "two_effects =
     run_ops [Subscribe 1 (UserFn 1 [CallCancel 2 [StrV ''removed'']]),
              Subscribe 1 (UserFn 2 [CallCancel 2 [StrV ''kept'']])] three_sources"

section \<open>Termination\<close>

text \<open>
  Every call of \<open>cancel\<close> that does anything clears one \<open>callback\<close>, and nothing sets one
  again; between two such calls the code being run only gets smaller. The measure is
  the number of sources whose \<open>callback\<close> is still a function, then the size of the code.
  The calls are nested (the world a listener returns is the world the next one starts
  in), so the first component is shown not to grow on the domain of the functions
  first.
\<close>

lemma live_count_calls [simp]: "live_count (w\<lparr>calls := c\<rparr>) = live_count w"
  by (simp add: live_count_def)

lemma live_count_type_errors [simp]: "live_count (w\<lparr>type_errors := n\<rparr>) = live_count w"
  by (simp add: live_count_def)

lemma live_count_record_call [simp]:
  "live_count (record_call og l r w w') = live_count w'"
  by (simp add: live_count_def record_call_def)

lemma live_count_setTimeout [simp]: "live_count (setTimeout_throw e w) = live_count w"
  by (simp add: live_count_def setTimeout_throw_def)

lemma filter_update_le:
  "(P x \<longrightarrow> P (xs ! i)) \<Longrightarrow> length (filter P (xs[i := x])) \<le> length (filter P xs)"
proof (induction xs arbitrary: i)
  case Nil
  then show ?case by simp
next
  case (Cons a xs)
  then show ?case by (cases i) auto
qed

lemma filter_update_less:
  "i < length xs \<Longrightarrow> P (xs ! i) \<Longrightarrow> \<not> P x \<Longrightarrow>
     length (filter P (xs[i := x])) < length (filter P xs)"
proof (induction xs arbitrary: i)
  case Nil
  then show ?case by simp
next
  case (Cons a xs)
  then show ?case by (cases i) (auto simp: Suc_le_eq)
qed

lemma live_count_store_le:
  "lookup w p = Some d \<Longrightarrow> (callback d' \<longrightarrow> callback d) \<Longrightarrow>
     live_count (store p d' w) \<le> live_count w"
  by (auto simp: live_count_def store_def lookup_def split: if_splits intro!: filter_update_le)

lemma live_count_store_less:
  "lookup w p = Some d \<Longrightarrow> callback d \<Longrightarrow> \<not> callback d' \<Longrightarrow>
     live_count (store p d' w) < live_count w"
  by (auto simp: live_count_def store_def lookup_def split: if_splits
      intro!: filter_update_less)

lemma live_count_unsubscribe: "live_count (unsubscribe s w) \<le> live_count w"
  by (cases s) (auto split: option.splits intro!: live_count_store_le)

lemma exec_live_count:
  "exec_dom (Inl (Inl (og, r, l, w))) \<Longrightarrow>
     live_count (snd (invokeListener og r l w)) \<le> live_count w"
  "exec_dom (Inl (Inr (Inl (f, args, w)))) \<Longrightarrow>
     live_count (snd (call f args w)) \<le> live_count w"
  "exec_dom (Inl (Inr (Inr (p, args, w)))) \<Longrightarrow>
     live_count (snd (cancel p args w)) \<le> live_count w"
  "exec_dom (Inr (Inl (og, r, ls, w))) \<Longrightarrow>
     live_count (snd (forEach_invokeListener og r ls w)) \<le> live_count w"
  "exec_dom (Inr (Inr (Inl (p, l, w)))) \<Longrightarrow>
     live_count (snd (subscribe p l w)) \<le> live_count w"
  "exec_dom (Inr (Inr (Inr (body, w)))) \<Longrightarrow>
     live_count (snd (run_body body w)) \<le> live_count w"
proof (induct rule: invokeListener_call_cancel_forEach_invokeListener_subscribe_run_body.pinduct)
  case (1 og r listener w)
  then show ?case
    by (auto simp: invokeListener.psimps split: prod.splits outcome.splits)
next
  case (2 f args w)
  then show ?case
    by (cases f) (auto simp: call.psimps)
next
  case (3 p args w)
  show ?case
  proof (cases "lookup w p")
    case None
    with 3 show ?thesis by (simp add: cancel.psimps)
  next
    case (Some d)
    show ?thesis
    proof (cases "callback d")
      case False
      with 3 Some show ?thesis by (simp add: cancel.psimps)
    next
      case True
      let ?r = "reason_or_default p (arg0 args)"
      let ?w = "store p (d\<lparr>callback := False, reason := ?r\<rparr>) w"
      have "live_count (snd (forEach_invokeListener (ByCancel p) ?r (listeners d) ?w))
              \<le> live_count ?w"
        using 3(2)[OF Some True refl refl] .
      also have "\<dots> \<le> live_count w"
        using Some by (auto intro!: live_count_store_le)
      finally show ?thesis
        using 3(1) Some True by (simp add: cancel.psimps Let_def)
    qed
  qed
next
  case (4 og r w)
  then show ?case by (simp add: forEach_invokeListener.psimps)
next
  case (5 og r listener rest w)
  then show ?case
    by (auto simp: forEach_invokeListener.psimps split: prod.splits outcome.splits)
next
  case (6 p listener w)
  then show ?case
    by (auto simp: subscribe.psimps split: option.splits prod.splits outcome.splits
        intro!: live_count_store_le)
next
  case (7 w)
  then show ?case by (simp add: run_body.psimps)
next
  case (8 error rest w)
  then show ?case by (simp add: run_body.psimps)
next
  case (9 p args rest w)
  then show ?case by (auto simp: run_body.psimps split: prod.splits outcome.splits)
next
  case (10 p listener rest w)
  then show ?case by (auto simp: run_body.psimps split: prod.splits outcome.splits)
next
  case (11 p listener rest w)
  then show ?case
    using live_count_unsubscribe[of "ListenerSubscription p listener" w]
    by (auto simp: run_body.psimps simp del: unsubscribe.simps)
next
  case (12 p rest w)
  then show ?case by (auto simp: run_body.psimps split: outcome.splits)
qed

lemma exec_live_count_result:
  "(out1, y) = invokeListener og r l w \<Longrightarrow> exec_dom (Inl (Inl (og, r, l, w))) \<Longrightarrow>
     live_count y < live_count w \<or> live_count y = live_count w"
  "(out1, y) = cancel p args w \<Longrightarrow> exec_dom (Inl (Inr (Inr (p, args, w)))) \<Longrightarrow>
     live_count y < live_count w \<or> live_count y = live_count w"
  "(out2, y) = subscribe p l w \<Longrightarrow> exec_dom (Inr (Inr (Inl (p, l, w)))) \<Longrightarrow>
     live_count y < live_count w \<or> live_count y = live_count w"
  using exec_live_count(1)[of og r l w] exec_live_count(3)[of p args w]
    exec_live_count(5)[of p l w]
  by (auto simp: le_less dest: arg_cong[where f=snd])

lemma live_count_unsubscribe_cases:
  "live_count (unsubscribe s w) < live_count w \<or> live_count (unsubscribe s w) = live_count w"
  using live_count_unsubscribe[of s w] by (auto simp: le_less)

termination invokeListener
  apply (relation "inv_image (less_than <*lex*> less_than)
    (\<lambda>x. case x of
        Inl (Inl (og, r, l, w)) \<Rightarrow> (live_count w, 2 * size l + 2)
      | Inl (Inr (Inl (f, args, w))) \<Rightarrow> (live_count w, 2 * size f + 1)
      | Inl (Inr (Inr (p, args, w))) \<Rightarrow> (live_count w, 0)
      | Inr (Inl (og, r, ls, w)) \<Rightarrow> (live_count w, 2 * size_list size ls + 3)
      | Inr (Inr (Inl (p, l, w))) \<Rightarrow> (live_count w, 2 * size l + 3)
      | Inr (Inr (Inr (body, w))) \<Rightarrow> (live_count w, 2 * size_list size body))")
   apply (intro wf_inv_image wf_lex_prod wf_less_than)
  apply (simp_all add: exec_live_count_result live_count_store_less
      live_count_unsubscribe_cases del: unsubscribe.simps)
  done

section \<open>Basic facts about the model\<close>

subsection \<open>The module's functions return normally\<close>

text \<open>
  Line 35 is the only place where code of a caller runs, and it runs inside the \<^verbatim>\<open>try\<close>:
  \<open>invokeListener\<close> returns normally whatever the listener does, and so does everything
  built on it. The recursive equations are taken out of the simplifier; the lemmas below
  use them one at a time.
\<close>

declare invokeListener.simps [simp del] call.simps [simp del] cancel.simps [simp del]
  subscribe.simps [simp del]

lemma invokeListener_returns: "fst (invokeListener og r l w) = Returns ()"
  by (simp add: invokeListener.simps split: prod.splits outcome.splits)

lemma forEach_returns: "fst (forEach_invokeListener og r ls w) = Returns ()"
proof (induction ls arbitrary: w)
  case Nil
  show ?case by simp
next
  case (Cons l ls)
  obtain w' where "invokeListener og r l w = (Returns (), w')"
    using invokeListener_returns[of og r l w] by (cases "invokeListener og r l w") auto
  with Cons show ?case by simp
qed

lemma cancel_returns: "fst (cancel p args w) = Returns ()"
  by (simp add: cancel.simps forEach_returns Let_def split: option.splits)

lemma subscribe_returns:
  "fst (subscribe p l w) =
     Returns (if isCanceled p w \<or> lookup w p = None then NoopSubscription
              else ListenerSubscription p l)"
proof (cases "lookup w p")
  case None
  then show ?thesis by (simp add: subscribe.simps)
next
  case (Some d)
  obtain w' where "invokeListener (BySubscribe p) (reason d) l w = (Returns (), w')"
    using invokeListener_returns[of "BySubscribe p" "reason d" l w]
    by (cases "invokeListener (BySubscribe p) (reason d) l w") auto
  with Some show ?thesis by (simp add: subscribe.simps isCanceled_def)
qed

lemma forEach_eq_snd:
  "forEach_invokeListener og r ls w = (Returns (), snd (forEach_invokeListener og r ls w))"
  using forEach_returns[of og r ls w] by (cases "forEach_invokeListener og r ls w") auto

lemma invokeListener_eq_snd:
  "invokeListener og r l w = (Returns (), snd (invokeListener og r l w))"
  using invokeListener_returns[of og r l w] by (cases "invokeListener og r l w") auto

lemma subscribe_eq_snd: "\<exists>s. subscribe p l w = (Returns s, snd (subscribe p l w))"
  using subscribe_returns[of p l w] by (cases "subscribe p l w") auto

lemma forEach_Cons:
  "forEach_invokeListener og r (l # ls) w =
     forEach_invokeListener og r ls (snd (invokeListener og r l w))"
  by (subst forEach_invokeListener.simps, subst invokeListener_eq_snd) simp

lemma forEach_append:
  "forEach_invokeListener og r (xs @ ys) w =
     forEach_invokeListener og r ys (snd (forEach_invokeListener og r xs w))"
  by (induction xs arbitrary: w) (simp_all add: forEach_Cons del: forEach_invokeListener.simps(2))

declare forEach_invokeListener.simps(2) [simp del]

declare forEach_Cons [simp]

subsection \<open>Reading and writing the heap\<close>

lemma lookup_store_same:
  "lookup w p = Some d \<Longrightarrow> lookup (store p d' w) p = Some d'"
  by (auto simp: lookup_def store_def split: if_splits)

lemma lookup_store_other:
  "q \<noteq> p \<Longrightarrow> lookup (store p d' w) q = lookup w q"
  by (auto simp: lookup_def store_def)

lemma lookup_store:
  "lookup w p = Some d \<Longrightarrow> lookup (store p d' w) y = (if y = p then Some d' else lookup w y)"
  by (simp add: lookup_store_same lookup_store_other)

lemma store_same: "lookup w p = Some d \<Longrightarrow> store p d w = w"
  by (auto simp: lookup_def store_def split: if_splits)

lemma store_store [simp]: "store p d' (store p d w) = store p d' w"
  by (simp add: store_def)

lemma calls_store [simp]: "calls (store p d w) = calls w"
  by (simp add: store_def)

lemma timers_store [simp]: "timers (store p d w) = timers w"
  by (simp add: store_def)

lemma lookup_record_call [simp]: "lookup (record_call og l r w w') p = lookup w' p"
  by (simp add: lookup_def record_call_def)

lemma lookup_type_errors [simp]: "lookup (w\<lparr>type_errors := n\<rparr>) p = lookup w p"
  by (simp add: lookup_def)

lemma lookup_setTimeout [simp]: "lookup (setTimeout_throw e w) p = lookup w p"
  by (simp add: lookup_def setTimeout_throw_def)

lemma lookup_alloc:
  "lookup (w\<lparr>pairs := pairs w @ [d]\<rparr>) y =
     (if y = length (pairs w) then Some d else lookup w y)"
  by (auto simp: lookup_def nth_append)

lemma reason_or_default_truthy [simp]: "truthy (reason_or_default p r)"
  by (simp add: reason_or_default_def)

lemma reason_or_default_idem [simp]: "truthy r \<Longrightarrow> reason_or_default p r = r"
  by (simp add: reason_or_default_def)

lemma strict_neq_function: "is_function l \<Longrightarrow> strict_neq el l = (el \<noteq> l)"
  by (cases l) (auto simp: strict_neq_def)

lemma strict_neq_errors:
  "strict_neq (ErrorV i m) (ErrorV j m) = (i \<noteq> j)"
  "strict_neq (TypeErrorV k m) (TypeErrorV n m) = (k \<noteq> n)"
  by (simp_all add: strict_neq_def)

lemma strict_neq_filter_idem:
  "filter (\<lambda>el. strict_neq el l) (filter (\<lambda>el. strict_neq el l) xs) =
     filter (\<lambda>el. strict_neq el l) xs"
  by simp

lemma count_list_pos: "x \<in> set xs \<Longrightarrow> 0 < count_list xs x"
  by (induction xs) auto

subsection \<open>The trace of a batch\<close>

text \<open>
  Every call of \<open>invokeListener\<close> appends exactly one event to the trace, whatever the
  listener does inside; a batch appends one event per listener, in order.
\<close>

lemma invokeListener_calls:
  "\<exists>nested. calls (snd (invokeListener og r l w)) = calls w @ [Invoke og l r nested]"
  by (auto simp: invokeListener.simps setTimeout_throw_def record_call_def
      split: prod.splits outcome.splits)

lemma forEach_calls:
  "\<exists>evs. calls (snd (forEach_invokeListener og r ls w)) = calls w @ evs \<and>
         map invoked evs = map (\<lambda>l. (og, l, r)) ls"
proof (induction ls arbitrary: w)
  case Nil
  show ?case by simp
next
  case (Cons l ls)
  let ?w = "snd (invokeListener og r l w)"
  obtain nested where n: "calls ?w = calls w @ [Invoke og l r nested]"
    using invokeListener_calls by blast
  obtain evs where e: "calls (snd (forEach_invokeListener og r ls ?w)) = calls ?w @ evs"
    "map invoked evs = map (\<lambda>l. (og, l, r)) ls"
    using Cons[of ?w] by blast
  show ?case
    by (rule exI[where x="Invoke og l r nested # evs"]) (simp add: forEach_Cons n e)
qed

subsection \<open>What every call preserves\<close>

lemma data_advances_refl [simp]: "data_advances d d"
  by (simp add: data_advances_def)

lemma data_advances_trans:
  "data_advances a b \<Longrightarrow> data_advances b c \<Longrightarrow> data_advances a c"
  unfolding data_advances_def by (auto intro: subseq_order.trans)

lemma advances_refl [simp]: "advances w w"
  by (simp add: advances_def)

lemma advances_trans: "advances a b \<Longrightarrow> advances b c \<Longrightarrow> advances a c"
proof -
  assume ab: "advances a b" and bc: "advances b c"
  have "data_advances (pairs a ! p) (pairs c ! p)" if "p < length (pairs a)" for p
    using that ab bc data_advances_trans[of "pairs a ! p" "pairs b ! p" "pairs c ! p"]
    by (simp add: advances_def)
  then show ?thesis
    using ab bc by (simp add: advances_def)
qed

lemma progresses_refl [simp]: "progresses w w"
  by (simp add: progresses_def)

lemma progresses_trans: "progresses a b \<Longrightarrow> progresses b c \<Longrightarrow> progresses a c"
  using advances_trans[of a b c] prefix_order.trans[of "timers a" "timers b" "timers c"]
  by (simp add: progresses_def)

lemma advances_calls [simp]:
  "advances (w\<lparr>calls := c\<rparr>) w' = advances w w'"
  "advances w (w'\<lparr>calls := c\<rparr>) = advances w w'"
  by (simp_all add: advances_def)

lemma progresses_calls [simp]:
  "progresses (w\<lparr>calls := c\<rparr>) w' = progresses w w'"
  "progresses w (w'\<lparr>calls := c\<rparr>) = progresses w w'"
  by (simp_all add: progresses_def)

lemma progresses_record_call [simp]:
  "progresses a (record_call og l r w w') = progresses a w'"
  by (simp add: record_call_def)

lemma progresses_type_errors: "progresses w (w\<lparr>type_errors := Suc (type_errors w)\<rparr>)"
  by (simp add: progresses_def advances_def)

lemma progresses_setTimeout: "progresses w (setTimeout_throw e w)"
  by (simp add: progresses_def advances_def setTimeout_throw_def)

lemma progresses_store:
  "lookup w p = Some d \<Longrightarrow> data_advances d d' \<Longrightarrow> progresses w (store p d' w)"
  by (auto simp: progresses_def advances_def store_def lookup_def nth_list_update
      split: if_splits)

lemma progresses_unsubscribe: "progresses w (unsubscribe s w)"
  by (cases s) (auto split: option.splits intro!: progresses_store simp: data_advances_def)

lemma exec_progresses:
  "progresses w (snd (invokeListener og r l w))"
  "progresses w (snd (call f args w))"
  "progresses w (snd (cancel p args w))"
  "progresses w (snd (forEach_invokeListener og r ls w))"
  "progresses w (snd (subscribe p l w))"
  "progresses w (snd (run_body body w))"
proof (induct og r l w and f args w and p args w and og r ls w and p l w and body w
    rule: invokeListener_call_cancel_forEach_invokeListener_subscribe_run_body.induct)
  case (1 og r listener w)
  then show ?case
    by (auto simp: invokeListener.simps split: prod.splits outcome.splits
        intro: progresses_trans[OF _ progresses_setTimeout])
next
  case (2 f args w)
  then show ?case by (cases f) (auto simp: call.simps progresses_type_errors)
next
  case (3 p args w)
  show ?case
  proof (cases "lookup w p")
    case None
    then show ?thesis by (simp add: cancel.simps)
  next
    case (Some d)
    show ?thesis
    proof (cases "callback d")
      case False
      with Some show ?thesis by (simp add: cancel.simps)
    next
      case True
      let ?r = "reason_or_default p (arg0 args)"
      let ?w = "store p (d\<lparr>callback := False, reason := ?r\<rparr>) w"
      have "progresses w ?w"
        using Some True by (intro progresses_store) (auto simp: data_advances_def)
      moreover have "progresses ?w (snd (forEach_invokeListener (ByCancel p) ?r (listeners d) ?w))"
        using 3[OF Some True refl refl] .
      ultimately show ?thesis
        using Some True by (simp add: cancel.simps Let_def progresses_trans)
    qed
  qed
next
  case (4 og r w)
  show ?case by simp
next
  case (5 og r listener rest w)
  have "progresses (snd (invokeListener og r listener w))
          (snd (forEach_invokeListener og r rest (snd (invokeListener og r listener w))))"
    using 5(2)[of "Returns ()" "snd (invokeListener og r listener w)" "()"]
      invokeListener_eq_snd[of og r listener w] by simp
  with 5(1) show ?case by (simp add: progresses_trans)
next
  case (6 p listener w)
  show ?case
  proof (cases "lookup w p")
    case None
    then show ?thesis by (simp add: subscribe.simps)
  next
    case (Some d)
    show ?thesis
    proof (cases "truthy (reason d)")
      case True
      with 6[OF Some True] Some show ?thesis
        by (subst subscribe.simps, subst invokeListener_eq_snd) simp
    next
      case False
      with Some show ?thesis
        by (auto simp: subscribe.simps data_advances_def intro!: progresses_store)
    qed
  qed
next
  case (7 w)
  show ?case by simp
next
  case (8 error rest w)
  show ?case by simp
next
  case (9 p args rest w)
  then show ?case
    by (auto split: prod.splits outcome.splits intro: progresses_trans)
next
  case (10 p listener rest w)
  then show ?case
    by (auto split: prod.splits outcome.splits intro: progresses_trans)
next
  case (11 p listener rest w)
  then show ?case
    using progresses_unsubscribe[of w "ListenerSubscription p listener"]
    by (auto simp del: unsubscribe.simps intro: progresses_trans)
next
  case (12 p rest w)
  then show ?case by (auto split: outcome.splits)
qed

lemma advances_lookup:
  "advances w w' \<Longrightarrow> lookup w p = Some d \<Longrightarrow>
     \<exists>d'. lookup w' p = Some d' \<and> data_advances d d'"
  by (auto simp: advances_def lookup_def split: if_splits)

lemma progresses_advances: "progresses w w' \<Longrightarrow> advances w w'"
  by (simp add: progresses_def)

lemmas exec_advances = exec_progresses[THEN progresses_advances]

lemma progresses_timers: "progresses w w' \<Longrightarrow> \<exists>ts. timers w' = timers w @ ts"
  by (auto simp: progresses_def prefix_def)

lemmas exec_timers = exec_progresses[THEN progresses_timers]

text \<open>Once committed, always committed.\<close>

lemma committed_stays:
  assumes "advances w w'" "lookup w p = Some d" "\<not> callback d"
  shows "\<exists>d'. lookup w' p = Some d' \<and> \<not> callback d' \<and> reason d' = reason d"
  using advances_lookup[OF assms(1,2)] assms(3) by (auto simp: data_advances_def)

subsection \<open>The branches of cancel, subscribe and unsubscribe\<close>

lemma cancel_noop: "lookup w p = Some d \<Longrightarrow> \<not> callback d \<Longrightarrow> cancel p args w = (Returns (), w)"
  by (simp add: cancel.simps)

lemma cancel_live:
  "lookup w p = Some d \<Longrightarrow> callback d \<Longrightarrow>
     cancel p args w =
       forEach_invokeListener (ByCancel p) (reason_or_default p (arg0 args)) (listeners d)
         (store p (d\<lparr>callback := False, reason := reason_or_default p (arg0 args)\<rparr>) w)"
  by (simp add: cancel.simps Let_def)

lemma cancel_commits:
  assumes "lookup w p = Some d" "callback d"
  shows "\<exists>d'. lookup (snd (cancel p args w)) p = Some d' \<and> \<not> callback d' \<and>
           reason d' = reason_or_default p (arg0 args)"
proof -
  let ?r = "reason_or_default p (arg0 args)"
  let ?w0 = "store p (d\<lparr>callback := False, reason := ?r\<rparr>) w"
  have "lookup ?w0 p = Some (d\<lparr>callback := False, reason := ?r\<rparr>)"
    using assms(1) by (rule lookup_store_same)
  from committed_stays[OF exec_advances(4) this, of "ByCancel p" ?r "listeners d"]
  show ?thesis
    by (simp add: cancel_live[OF assms])
qed

lemma cancel_calls:
  assumes "lookup w p = Some d" "callback d"
  shows "\<exists>evs. calls (snd (cancel p args w)) = calls w @ evs \<and>
           map invoked evs =
             map (\<lambda>l. (ByCancel p, l, reason_or_default p (arg0 args))) (listeners d)"
  using forEach_calls[of "ByCancel p" "reason_or_default p (arg0 args)" "listeners d"
      "store p (d\<lparr>callback := False, reason := reason_or_default p (arg0 args)\<rparr>) w"]
  by (simp add: cancel_live[OF assms])

lemma subscribe_pending:
  "lookup w p = Some d \<Longrightarrow> \<not> truthy (reason d) \<Longrightarrow>
     subscribe p l w =
       (Returns (ListenerSubscription p l), store p (d\<lparr>listeners := listeners d @ [l]\<rparr>) w)"
  by (simp add: subscribe.simps)

lemma subscribe_committed:
  "lookup w p = Some d \<Longrightarrow> truthy (reason d) \<Longrightarrow>
     subscribe p l w =
       (Returns NoopSubscription, snd (invokeListener (BySubscribe p) (reason d) l w))"
  by (subst subscribe.simps, subst invokeListener_eq_snd) simp

lemma unsubscribe_pending:
  "lookup w p = Some d \<Longrightarrow>
     unsubscribe (ListenerSubscription p l) w =
       store p (d\<lparr>listeners := filter (\<lambda>el. strict_neq el l) (listeners d)\<rparr>) w"
  by simp

lemma unsubscribe_idem: "unsubscribe s (unsubscribe s w) = unsubscribe s w"
proof (cases s)
  case NoopSubscription
  then show ?thesis by simp
next
  case (ListenerSubscription p l)
  show ?thesis
  proof (cases "lookup w p")
    case None
    with ListenerSubscription show ?thesis by simp
  next
    case (Some d)
    let ?d = "d\<lparr>listeners := filter (\<lambda>el. strict_neq el l) (listeners d)\<rparr>"
    have "lookup (store p ?d w) p = Some ?d"
      using Some by (rule lookup_store_same)
    with Some ListenerSubscription show ?thesis by simp
  qed
qed

lemma unsubscribe_absent:
  assumes "lookup w p = Some d" "l \<notin> set (listeners d)"
  shows "unsubscribe (ListenerSubscription p l) w = w"
proof -
  have "filter (\<lambda>el. strict_neq el l) (listeners d) = listeners d"
    using assms(2) by (auto simp: strict_neq_def filter_id_conv)
  then show ?thesis
    using assms(1) by (simp add: store_same)
qed

lemma call_not_function:
  "\<not> is_function l \<Longrightarrow>
     call l args w =
       (Throws (TypeErrorV (type_errors w) ''listener is not a function''),
        w\<lparr>type_errors := Suc (type_errors w)\<rparr>)"
  by (cases l) (simp_all add: call.simps)

lemma invokeListener_throws:
  assumes "fst (call l [r] w) = Throws e"
  shows "invokeListener og r l w =
           (Returns (), setTimeout_throw e (record_call og l r w (snd (call l [r] w))))"
  using assms by (cases "call l [r] w") (simp add: invokeListener.simps)

lemma invokeListener_not_function:
  "\<not> is_function l \<Longrightarrow>
     invokeListener og r l w =
       (Returns (),
        w\<lparr>calls := calls w @ [Invoke og l r []],
          timers := timers w @ [TypeErrorV (type_errors w) ''listener is not a function''],
          type_errors := Suc (type_errors w)\<rparr>)"
  by (simp add: invokeListener_throws call_not_function setTimeout_throw_def record_call_def)

lemma invokeListener_CancelFn:
  "snd (invokeListener og r (CancelFn c) w) =
     record_call og (CancelFn c) r w (snd (cancel c [r] w))"
  using cancel_returns[of c "[r]" w]
  by (cases "cancel c [r] w") (simp add: invokeListener.simps call.simps)

lemma invokeListener_cancel_noop:
  assumes "lookup w p = Some d" "\<not> callback d"
  shows "invokeListener og r (CancelFn p) w =
           (Returns (), w\<lparr>calls := calls w @ [Invoke og (CancelFn p) r []]\<rparr>)"
  using assms by (simp add: invokeListener.simps call.simps cancel_noop record_call_def)

lemma cancel_by_listener:
  assumes "lookup w c = Some d" "callback d \<or> truthy (reason d)" "truthy r"
  shows "\<exists>d'. lookup (snd (invokeListener og r (CancelFn c) w)) c = Some d' \<and>
           \<not> callback d' \<and> truthy (reason d') \<and> (callback d \<longrightarrow> reason d' = r)"
proof (cases "callback d")
  case True
  from cancel_commits[OF assms(1) True, of "[r]"] assms(3) True show ?thesis
    by (auto simp: invokeListener_CancelFn)
next
  case False
  with assms show ?thesis
    by (simp add: invokeListener_CancelFn cancel_noop)
qed

lemma subscribe_committed_cancel:
  assumes "lookup w q = Some dq" "truthy (reason dq)" "lookup w c = Some dc" "callback dc"
  shows "\<exists>d'. lookup (snd (subscribe q (CancelFn c) w)) c = Some d' \<and> \<not> callback d' \<and>
           reason d' = reason dq"
  using cancel_by_listener[OF assms(3) _ assms(2), of "BySubscribe q"] assms(4)
  by (auto simp: subscribe_committed[OF assms(1,2)])

subsection \<open>One notification, by the kind of listener\<close>

lemma invokeListener_delivery: "snd (invokeListener og r l w) = delivery og r l w"
proof (cases "is_function l")
  case False
  then show ?thesis
    by (cases l)
      (simp_all add: invokeListener_not_function delivery_def setTimeout_throw_def record_call_def)
next
  case True
  then show ?thesis
  proof (cases l)
    case (CancelFn q)
    then show ?thesis
      by (simp add: invokeListener_CancelFn delivery_def)
  next
    case (UserFn n body)
    then show ?thesis
      by (simp add: invokeListener.simps call.simps delivery_def
          split: prod.splits outcome.splits)
  qed simp_all
qed

lemma forEach_delivery:
  "snd (forEach_invokeListener og r ls w) = foldl (\<lambda>w l. delivery og r l w) w ls"
  by (induction ls arbitrary: w) (simp_all add: invokeListener_delivery)

lemma cancel_delivery:
  assumes "lookup w p = Some d" "callback d"
  shows "snd (cancel p args w) =
           foldl (\<lambda>w l. delivery (ByCancel p) (reason_or_default p (arg0 args)) l w)
             (store p (d\<lparr>callback := False, reason := reason_or_default p (arg0 args)\<rparr>) w)
             (listeners d)"
  by (simp add: cancel_live[OF assms] forEach_delivery)

lemma subscribe_delivery:
  assumes "lookup w p = Some d" "truthy (reason d)"
  shows "snd (subscribe p l w) = delivery (BySubscribe p) (reason d) l w"
  by (simp add: subscribe_committed[OF assms] invokeListener_delivery)

text \<open>
  A batch that contains the \<^verbatim>\<open>cancel\<close> of a source leaves that source canceled; this is
  the step of the cascade.
\<close>

lemma cascade:
  assumes "lookup w q = Some dq" "callback dq" "listeners dq = before @ CancelFn c # after"
    and "lookup w c = Some dc" "callback dc"
  shows "\<exists>d1 d'.
           lookup (snd (forEach_invokeListener (ByCancel q) (reason_or_default q (arg0 args)) before
             (store q (dq\<lparr>callback := False, reason := reason_or_default q (arg0 args)\<rparr>) w))) c
             = Some d1 \<and>
           lookup (snd (cancel q args w)) c = Some d' \<and> \<not> callback d' \<and> truthy (reason d') \<and>
           (callback d1 \<longrightarrow> reason d' = reason_or_default q (arg0 args))"
proof -
  let ?r = "reason_or_default q (arg0 args)"
  let ?d0 = "dq\<lparr>callback := False, reason := ?r\<rparr>"
  let ?w0 = "store q ?d0 w"
  let ?w1 = "snd (forEach_invokeListener (ByCancel q) ?r before ?w0)"
  let ?w2 = "snd (invokeListener (ByCancel q) ?r (CancelFn c) ?w1)"
  let ?w3 = "snd (forEach_invokeListener (ByCancel q) ?r after ?w2)"
  have w3: "snd (cancel q args w) = ?w3"
    by (simp add: cancel_live[OF assms(1,2)] assms(3) forEach_append)
  obtain d0 where d0: "lookup ?w0 c = Some d0" "callback d0 \<or> truthy (reason d0)"
    using assms(4,5) by (cases "c = q") (auto simp: lookup_store[OF assms(1)])
  obtain d1 where d1: "lookup ?w1 c = Some d1" "callback d1 \<or> truthy (reason d1)"
    using advances_lookup[OF exec_advances(4) d0(1), of "ByCancel q" ?r before] d0(2)
    by (auto simp: data_advances_def)
  obtain d2 where d2: "lookup ?w2 c = Some d2" "\<not> callback d2" "truthy (reason d2)"
    "callback d1 \<longrightarrow> reason d2 = ?r"
    using cancel_by_listener[OF d1, of ?r "ByCancel q"] by auto
  obtain d3 where d3: "lookup ?w3 c = Some d3" "\<not> callback d3" "reason d3 = reason d2"
    using committed_stays[OF exec_advances(4) d2(1,2), of "ByCancel q" ?r after] by blast
  show ?thesis
    using d1(1) d2 d3 by (simp add: w3)
qed

subsection \<open>The factory and sequences of operations\<close>

lemma map_subscribe_returns: "\<exists>ss. fst (map_subscribe ps l w) = Returns ss"
proof (induction ps arbitrary: w)
  case Nil
  show ?case by simp
next
  case (Cons q ps)
  obtain s w' where s: "subscribe q l w = (Returns s, w')"
    using subscribe_returns[of q l w] by (cases "subscribe q l w") auto
  obtain ss where "fst (map_subscribe ps l w') = Returns ss"
    using Cons by blast
  with s show ?case by (cases "map_subscribe ps l w'") auto
qed

lemma map_subscribe_Cons_snd:
  "snd (map_subscribe (q # ps) l w) = snd (map_subscribe ps l (snd (subscribe q l w)))"
proof -
  obtain s w' where sw: "subscribe q l w = (Returns s, w')"
    using subscribe_eq_snd by blast
  show ?thesis
    by (cases "map_subscribe ps l w'") (auto simp: sw split: outcome.splits)
qed

lemma map_subscribe_append_snd:
  "snd (map_subscribe (xs @ ys) l w) = snd (map_subscribe ys l (snd (map_subscribe xs l w)))"
proof (induction xs arbitrary: w)
  case Nil
  show ?case by simp
next
  case (Cons x xs)
  show ?case
    using Cons[of "snd (subscribe x l w)"]
    by (simp add: map_subscribe_Cons_snd del: map_subscribe.simps)
qed

lemma map_subscribe_progresses: "progresses w (snd (map_subscribe ps l w))"
proof (induction ps arbitrary: w)
  case Nil
  show ?case by simp
next
  case (Cons q ps)
  have "progresses w (snd (subscribe q l w))"
    by (rule exec_progresses)
  moreover have "progresses (snd (subscribe q l w)) (snd (map_subscribe ps l (snd (subscribe q l w))))"
    by (rule Cons)
  ultimately show ?case
    by (cases "subscribe q l w")
      (auto split: outcome.splits prod.splits intro: progresses_trans)
qed

lemma map_subscribe_pending:
  assumes "\<forall>x \<in> set ps. \<exists>d. lookup w x = Some d \<and> \<not> truthy (reason d)"
    and "lookup w y = Some d"
  shows "lookup (snd (map_subscribe ps l w)) y =
           Some (d\<lparr>listeners := listeners d @ replicate (count_list ps y) l\<rparr>)"
  using assms
proof (induction ps arbitrary: w d)
  case Nil
  then show ?case by simp
next
  case (Cons x ps)
  obtain dx where dx: "lookup w x = Some dx" "\<not> truthy (reason dx)"
    using Cons.prems(1) by auto
  let ?dx = "dx\<lparr>listeners := listeners dx @ [l]\<rparr>"
  let ?w = "store x ?dx w"
  have s: "snd (subscribe x l w) = ?w"
    using dx by (simp add: subscribe_pending)
  have pend: "\<forall>z \<in> set ps. \<exists>d. lookup ?w z = Some d \<and> \<not> truthy (reason d)"
  proof
    fix z assume "z \<in> set ps"
    then obtain dz where "lookup w z = Some dz" "\<not> truthy (reason dz)"
      using Cons.prems(1) by auto
    then show "\<exists>d. lookup ?w z = Some d \<and> \<not> truthy (reason d)"
      using dx by (cases "z = x") (auto simp: lookup_store[OF dx(1)])
  qed
  show ?case
  proof (cases "y = x")
    case True
    then have "d = dx"
      using Cons.prems(2) dx(1) by simp
    have "lookup ?w y = Some ?dx"
      using True dx(1) by (simp add: lookup_store_same)
    from Cons.IH[OF pend this] True \<open>d = dx\<close> show ?thesis
      by (simp add: map_subscribe_Cons_snd s replicate_app_Cons_same del: map_subscribe.simps)
  next
    case False
    then have "lookup ?w y = Some d"
      using Cons.prems(2) by (simp add: lookup_store_other)
    from Cons.IH[OF pend this] False show ?thesis
      by (simp add: map_subscribe_Cons_snd s del: map_subscribe.simps)
  qed
qed

lemma createCancelSource_returns:
  "fst (createCancelSource ps w) = Returns (length (pairs w), CancelFn (length (pairs w)))"
proof -
  let ?w1 = "w\<lparr>pairs := pairs w @ [\<lparr>reason = Null, listeners = [], callback = True\<rparr>]\<rparr>"
  obtain ss where "fst (map_subscribe ps (CancelFn (length (pairs w))) ?w1) = Returns ss"
    using map_subscribe_returns by blast
  then show ?thesis
    by (cases "map_subscribe ps (CancelFn (length (pairs w))) ?w1")
      (simp add: createCancelSource_def Let_def)
qed

lemma createCancelSource_snd:
  "snd (createCancelSource ps w) =
     snd (map_subscribe ps (CancelFn (length (pairs w)))
       (w\<lparr>pairs := pairs w @ [\<lparr>reason = Null, listeners = [], callback = True\<rparr>]\<rparr>))"
  by (simp add: createCancelSource_def Let_def split: prod.splits outcome.splits)

lemma advances_alloc: "advances w (w\<lparr>pairs := pairs w @ [d]\<rparr>)"
  by (simp add: advances_def nth_append)

lemma createCancelSource_advances: "advances w (snd (createCancelSource ps w))"
  unfolding createCancelSource_snd
  by (rule advances_trans[OF advances_alloc progresses_advances[OF map_subscribe_progresses]])

lemma tick_advances: "advances w (snd (tick w))"
  by (simp add: tick_def advances_def split: list.splits)

lemma step_advances: "advances w (step x w)"
  by (cases x)
    (simp_all add: exec_advances createCancelSource_advances tick_advances
      progresses_advances[OF progresses_unsubscribe] del: unsubscribe.simps)

lemma run_ops_advances: "advances w (run_ops xs w)"
proof (induction xs arbitrary: w)
  case Nil
  show ?case by simp
next
  case (Cons x xs)
  show ?case
    using advances_trans[OF step_advances[of w x] Cons[of "step x w"]] by simp
qed

lemma subscribe_all_pending:
  "lookup w p = Some d \<Longrightarrow> \<not> truthy (reason d) \<Longrightarrow>
     run_ops (map (Subscribe p) ls) w = store p (d\<lparr>listeners := listeners d @ ls\<rparr>) w"
proof (induction ls arbitrary: w d)
  case Nil
  then show ?case by (simp add: store_same)
next
  case (Cons l ls)
  let ?d = "d\<lparr>listeners := listeners d @ [l]\<rparr>"
  have "lookup (store p ?d w) p = Some ?d"
    using Cons.prems(1) by (rule lookup_store_same)
  from Cons.IH[OF this] Cons.prems show ?case
    by (simp add: subscribe_pending)
qed

lemma not_canceled_pending:
  "x < length (pairs w) \<Longrightarrow> \<not> isCanceled x w \<Longrightarrow>
     \<exists>d. lookup w x = Some d \<and> \<not> truthy (reason d)"
  by (auto simp: isCanceled_def lookup_def)

subsection \<open>The example worlds, evaluated\<close>

lemma module_init_eval:
  "module_init = \<lparr>pairs = [\<lparr>reason = Null, listeners = [], callback = True\<rparr>], timers = [], type_errors = 0, calls = []\<rparr>"
  by (simp add: module_init_def createCancelSource_def)

lemma fresh_pair_eval:
  "fresh_pair = \<lparr>pairs = [\<lparr>reason = Null, listeners = [], callback = True\<rparr>,
      \<lparr>reason = Null, listeners = [], callback = True\<rparr>], timers = [], type_errors = 0, calls = []\<rparr>"
  by (simp add: fresh_pair_def module_init_eval createCancelSource_def)

lemma cancel_fresh_pair_eval:
  "snd (cancel 1 [ErrorV (Caller 0) ''Timeout''] fresh_pair) =
     \<lparr>pairs = [\<lparr>reason = Null, listeners = [], callback = True\<rparr>,
        \<lparr>reason = ErrorV (Caller 0) ''Timeout'', listeners = [], callback = False\<rparr>],
      timers = [], type_errors = 0, calls = []\<rparr>"
  by (simp add: cancel.simps fresh_pair_eval lookup_def store_def Let_def reason_or_default_def)

lemma canceled_pair_eval:
  "canceled_pair =
     \<lparr>pairs = [\<lparr>reason = Null, listeners = [], callback = True\<rparr>,
        \<lparr>reason = ErrorV (Caller 0) ''Timeout'', listeners = [], callback = False\<rparr>],
      timers = [], type_errors = 0, calls = []\<rparr>"
  unfolding canceled_pair_def by (rule cancel_fresh_pair_eval)

lemma two_listeners_eval:
  "two_listeners =
     \<lparr>pairs = [\<lparr>reason = Null, listeners = [], callback = True\<rparr>,
        \<lparr>reason = Null, listeners = [UserFn 1 [], UserFn 2 []], callback = True\<rparr>],
      timers = [], type_errors = 0, calls = []\<rparr>"
  by (simp add: two_listeners_def subscribe.simps fresh_pair_eval lookup_def store_def)


lemma reentrant_listener_eval:
  "reentrant_listener =
     \<lparr>pairs = [\<lparr>reason = Null, listeners = [], callback = True\<rparr>,
        \<lparr>reason = Null, listeners = [CancelFn 2], callback = True\<rparr>,
        \<lparr>reason = Null,
         listeners = [UserFn 1 [CallCancel 2 [StrV ''again''], CallCancel 1 [StrV ''parent'']],
                      UserFn 2 []],
         callback = True\<rparr>],
      timers = [], type_errors = 0, calls = []\<rparr>"
  by (simp add: reentrant_listener_def module_init_eval createCancelSource_def subscribe.simps
      lookup_def store_def)

lemma three_sources_eval:
  "three_sources =
     \<lparr>pairs = [\<lparr>reason = Null, listeners = [], callback = True\<rparr>,
        \<lparr>reason = Null, listeners = [], callback = True\<rparr>,
        \<lparr>reason = Null, listeners = [], callback = True\<rparr>],
      timers = [], type_errors = 0, calls = []\<rparr>"
  by (simp add: three_sources_def module_init_eval createCancelSource_def)

lemma cancel_three_sources_eval:
  "snd (cancel 1 [ErrorV (Caller 0) ''Timeout''] three_sources) =
     \<lparr>pairs = [\<lparr>reason = Null, listeners = [], callback = True\<rparr>,
        \<lparr>reason = ErrorV (Caller 0) ''Timeout'', listeners = [], callback = False\<rparr>,
        \<lparr>reason = Null, listeners = [], callback = True\<rparr>],
      timers = [], type_errors = 0, calls = []\<rparr>"
  by (simp add: cancel.simps three_sources_eval lookup_def store_def Let_def reason_or_default_def)

lemma two_effects_eval:
  "two_effects =
     \<lparr>pairs = [\<lparr>reason = Null, listeners = [], callback = True\<rparr>,
        \<lparr>reason = Null,
         listeners = [UserFn 1 [CallCancel 2 [StrV ''removed'']],
                      UserFn 2 [CallCancel 2 [StrV ''kept'']]],
         callback = True\<rparr>,
        \<lparr>reason = Null, listeners = [], callback = True\<rparr>],
      timers = [], type_errors = 0, calls = []\<rparr>"
  by (simp add: two_effects_def subscribe.simps three_sources_eval lookup_def store_def)

lemma child_eval:
  "snd (createCancelSource [1] fresh_pair) =
     \<lparr>pairs = [\<lparr>reason = Null, listeners = [], callback = True\<rparr>,
        \<lparr>reason = Null, listeners = [CancelFn 2], callback = True\<rparr>,
        \<lparr>reason = Null, listeners = [], callback = True\<rparr>],
      timers = [], type_errors = 0, calls = []\<rparr>"
  by (simp add: fresh_pair_eval createCancelSource_def subscribe.simps lookup_def store_def)

lemma child_later_eval:
  "isCanceled 1 (run_ops [Subscribe 2 (UserFn 1 []), Cancel 1 []]
     (snd (createCancelSource [1] fresh_pair)))"
  unfolding child_eval
  by (simp add: subscribe.simps cancel.simps invokeListener.simps call.simps record_call_def
      lookup_def store_def Let_def reason_or_default_def isCanceled_def)

section \<open>The claims\<close>

subsection \<open>C1: the first cancel commits the reason\<close>

text \<open>
  Claim C1. On a source whose \<^verbatim>\<open>cancel\<close> has not been called, the first call
  \<^verbatim>\<open>cancel(r)\<close> returns normally; afterwards \<^verbatim>\<open>isCanceled()\<close> is true and
  \<^verbatim>\<open>throwIfCanceled()\<close> throws the committed reason, which is \<open>r\<close> itself when \<open>r\<close> is truthy
  and the default \<^verbatim>\<open>Error('Operation Canceled')\<close> (not \<^verbatim>\<open>null\<close>) when \<open>r\<close> is absent or falsy.
  A second call of \<^verbatim>\<open>cancel\<close> changes nothing at all, and after any later sequence of
  operations (further \<^verbatim>\<open>cancel\<close> calls with any reasons among them) the token is still
  canceled with the same reason.
\<close>

theorem C1_first_cancel_commits:
  assumes "lookup w p = Some d" and "callback d"
  shows "fst (cancel p args w) = Returns () \<and>
         isCanceled p (snd (cancel p args w)) \<and>
         throwIfCanceled p (snd (cancel p args w)) = Throws (reason_or_default p (arg0 args)) \<and>
         (truthy (arg0 args) \<longrightarrow> reason_or_default p (arg0 args) = arg0 args) \<and>
         (\<not> truthy (arg0 args) \<longrightarrow>
            reason_or_default p (arg0 args) = ErrorV (DefaultOf p) ''Operation Canceled'') \<and>
         reason_or_default p (arg0 args) \<noteq> Null \<and>
         cancel p args2 (snd (cancel p args w)) = (Returns (), snd (cancel p args w)) \<and>
         (\<forall>later. isCanceled p (run_ops later (snd (cancel p args w))) \<and>
            throwIfCanceled p (run_ops later (snd (cancel p args w))) =
              Throws (reason_or_default p (arg0 args)))"
proof -
  let ?r = "reason_or_default p (arg0 args)"
  let ?w' = "snd (cancel p args w)"
  obtain d' where d': "lookup ?w' p = Some d'" "\<not> callback d'" "reason d' = ?r"
    using cancel_commits[OF assms] by blast
  have later: "isCanceled p (run_ops later ?w') \<and> throwIfCanceled p (run_ops later ?w') = Throws ?r"
    for later
    using committed_stays[OF run_ops_advances d'(1,2), of later] d'(3)
    by (auto simp: isCanceled_def throwIfCanceled_def)
  have "?r \<noteq> Null"
    by (auto simp: reason_or_default_def)
  moreover have "cancel p args2 ?w' = (Returns (), ?w')"
    using d' by (simp add: cancel_noop)
  moreover have "isCanceled p ?w'" "throwIfCanceled p ?w' = Throws ?r"
    using d' by (simp_all add: isCanceled_def throwIfCanceled_def)
  ultimately show ?thesis
    using later by (simp add: cancel_returns reason_or_default_def)
qed

theorem C1_witness:
  "isCanceled 1 (snd (cancel 1 [StrV ''Timeout''] fresh_pair)) \<and>
   throwIfCanceled 1 (snd (cancel 1 [StrV ''Timeout''] fresh_pair)) = Throws (StrV ''Timeout'') \<and>
   throwIfCanceled 1 (run_ops [Cancel 1 [StrV ''Again'']] (snd (cancel 1 [StrV ''Timeout''] fresh_pair)))
     = Throws (StrV ''Timeout'') \<and>
   throwIfCanceled 1 (snd (cancel 1 [] fresh_pair)) = Throws (ErrorV (DefaultOf 1) ''Operation Canceled'') \<and>
   throwIfCanceled 1 (snd (cancel 1 [NumV 0] fresh_pair)) = Throws (ErrorV (DefaultOf 1) ''Operation Canceled'')"
proof -
  have h: "lookup fresh_pair 1 = Some \<lparr>reason = Null, listeners = [], callback = True\<rparr>"
    "callback \<lparr>reason = Null, listeners = [], callback = True\<rparr>"
    by (simp_all add: fresh_pair_eval lookup_def)
  note c = C1_first_cancel_commits[OF h, of "[StrV ''Timeout'']" "[]"]
  note absent = C1_first_cancel_commits[OF h, of "[]" "[]"]
  note falsy = C1_first_cancel_commits[OF h, of "[NumV 0]" "[]"]
  from c have "\<forall>later. isCanceled 1 (run_ops later (snd (cancel 1 [StrV ''Timeout''] fresh_pair))) \<and>
            throwIfCanceled 1 (run_ops later (snd (cancel 1 [StrV ''Timeout''] fresh_pair))) =
              Throws (reason_or_default 1 (arg0 [StrV ''Timeout'']))"
    by blast
  from this[THEN spec, of "[Cancel 1 [StrV ''Again'']]"] c absent falsy
  show ?thesis by (simp add: reason_or_default_def)
qed

subsection \<open>C2: one call per subscribed listener, in order\<close>

text \<open>
  Claim C2. Take a source that is not canceled, with listeners \<open>listeners d\<close> already
  subscribed, and subscribe the listeners \<open>ls\<close> one after the other. The first call of
  \<^verbatim>\<open>cancel\<close> then makes exactly one call \<^verbatim>\<open>listener(reason)\<close> for each subscribed
  listener, in subscription order and all with the committed reason.
  \<^item> The events it appends to the trace are these calls and no others.
  \<^item> The world it returns is the world in which the reason is committed, taken through
    the delivery to each listener in turn: the code of every listener has run, once, in
    the world the listener before it left.
  \<^item> So a listener that is the \<^verbatim>\<open>cancel\<close> of another source, not canceled before, leaves
    that source canceled, and with the committed reason when it is the first listener of
    the batch.
  \<^item> Any later call of \<^verbatim>\<open>cancel\<close>, after any operations in between, returns without
    changing the world, so it calls no listener.
\<close>

theorem C2_listeners_notified_once_in_order:
  assumes "lookup w p = Some d" and "callback d" and "\<not> truthy (reason d)"
  shows "(\<exists>evs.
            calls (snd (cancel p args (run_ops (map (Subscribe p) ls) w))) = calls w @ evs \<and>
            map invoked evs =
              map (\<lambda>l. (ByCancel p, l, reason_or_default p (arg0 args))) (listeners d @ ls)) \<and>
         snd (cancel p args (run_ops (map (Subscribe p) ls) w)) =
           foldl (\<lambda>w l. delivery (ByCancel p) (reason_or_default p (arg0 args)) l w)
             (store p (d\<lparr>listeners := listeners d @ ls, callback := False,
                         reason := reason_or_default p (arg0 args)\<rparr>) w)
             (listeners d @ ls) \<and>
         (\<forall>before q after dq.
            listeners d @ ls = before @ CancelFn q # after \<and>
            lookup w q = Some dq \<and> callback dq \<longrightarrow>
              isCanceled q (snd (cancel p args (run_ops (map (Subscribe p) ls) w))) \<and>
              (before = [] \<and> q \<noteq> p \<longrightarrow>
                 throwIfCanceled q (snd (cancel p args (run_ops (map (Subscribe p) ls) w))) =
                   Throws (reason_or_default p (arg0 args)))) \<and>
         (\<forall>later args2.
            cancel p args2 (run_ops later (snd (cancel p args (run_ops (map (Subscribe p) ls) w)))) =
              (Returns (), run_ops later (snd (cancel p args (run_ops (map (Subscribe p) ls) w)))))"
proof -
  let ?d = "d\<lparr>listeners := listeners d @ ls\<rparr>"
  let ?w1 = "run_ops (map (Subscribe p) ls) w"
  let ?r = "reason_or_default p (arg0 args)"
  have w1: "?w1 = store p ?d w"
    using assms(1,3) by (rule subscribe_all_pending)
  have l1: "lookup ?w1 p = Some ?d"
    unfolding w1 using assms(1) by (rule lookup_store_same)
  have c1: "callback ?d"
    using assms(2) by simp
  have first: "\<exists>evs. calls (snd (cancel p args ?w1)) = calls w @ evs \<and>
      map invoked evs = map (\<lambda>l. (ByCancel p, l, ?r)) (listeners d @ ls)"
    using cancel_calls[OF l1 c1, of args] by (simp add: w1)
  have run: "snd (cancel p args ?w1) =
      foldl (\<lambda>w l. delivery (ByCancel p) ?r l w)
        (store p (d\<lparr>listeners := listeners d @ ls, callback := False, reason := ?r\<rparr>) w)
        (listeners d @ ls)"
    using cancel_delivery[OF l1 c1, of args] by (simp add: w1)
  have seen: "isCanceled q (snd (cancel p args ?w1)) \<and>
      (before = [] \<and> q \<noteq> p \<longrightarrow> throwIfCanceled q (snd (cancel p args ?w1)) = Throws ?r)"
    if sp: "listeners d @ ls = before @ CancelFn q # after"
      and q: "lookup w q = Some dq" "callback dq" for before q after dq
  proof -
    let ?dq = "if q = p then ?d else dq"
    have lq: "lookup ?w1 q = Some ?dq"
      unfolding w1 using q(1) by (simp add: lookup_store[OF assms(1)])
    have cq: "callback ?dq"
      using q(2) c1 by simp
    have ls1: "listeners ?d = before @ CancelFn q # after"
      using sp by simp
    obtain d1 d' where o:
      "lookup (snd (forEach_invokeListener (ByCancel p) ?r before
         (store p (?d\<lparr>callback := False, reason := ?r\<rparr>) ?w1))) q = Some d1"
      "lookup (snd (cancel p args ?w1)) q = Some d'" "\<not> callback d'" "truthy (reason d')"
      "callback d1 \<longrightarrow> reason d' = ?r"
      using cascade[OF l1 c1 ls1 lq cq, of args] by blast
    have "reason d' = ?r" if "before = []" "q \<noteq> p"
    proof -
      have "lookup (store p (?d\<lparr>callback := False, reason := ?r\<rparr>) ?w1) q = Some dq"
        using lq that(2) by (simp add: lookup_store_other)
      with o(1,5) q(2) that(1) show ?thesis by simp
    qed
    with o(2,4) show ?thesis
      by (simp add: isCanceled_def throwIfCanceled_def)
  qed
  obtain d' where d': "lookup (snd (cancel p args ?w1)) p = Some d'" "\<not> callback d'"
    using cancel_commits[OF l1 c1] by blast
  have again: "cancel p args2 (run_ops later (snd (cancel p args ?w1))) =
      (Returns (), run_ops later (snd (cancel p args ?w1)))" for later args2
    using committed_stays[OF run_ops_advances d', of later] by (auto simp: cancel_noop)
  show ?thesis
    apply (intro conjI)
       apply (rule first)
      apply (rule run)
     apply (intro allI impI, elim conjE, erule (2) seen)
    apply (intro allI, rule again)
    done
qed

theorem C2_witness:
  "map invoked (calls (snd (cancel 1 [ErrorV (Caller 0) ''Timeout'']
       (run_ops (map (Subscribe 1) [UserFn 1 [CallCancel 2 [StrV ''first'']], CancelFn 2])
          three_sources)))) =
     [(ByCancel 1, UserFn 1 [CallCancel 2 [StrV ''first'']], ErrorV (Caller 0) ''Timeout''),
      (ByCancel 1, CancelFn 2, ErrorV (Caller 0) ''Timeout'')] \<and>
   throwIfCanceled 2 (snd (cancel 1 [ErrorV (Caller 0) ''Timeout'']
       (run_ops (map (Subscribe 1) [UserFn 1 [CallCancel 2 [StrV ''first'']], CancelFn 2])
          three_sources))) = Throws (StrV ''first'') \<and>
   throwIfCanceled 2 (snd (cancel 1 [ErrorV (Caller 0) ''Timeout'']
       (run_ops (map (Subscribe 1) [CancelFn 2, UserFn 1 [CallCancel 2 [StrV ''late'']]])
          three_sources))) = Throws (ErrorV (Caller 0) ''Timeout'')"
proof -
  let ?d = "\<lparr>reason = Null, listeners = [], callback = True\<rparr>"
  let ?E = "ErrorV (Caller 0) ''Timeout''"
  have h: "lookup three_sources 1 = Some ?d" "callback ?d" "\<not> truthy (reason ?d)"
    by (simp_all add: three_sources_eval lookup_def)
  note a = C2_listeners_notified_once_in_order[OF h, of "[?E]"
      "[UserFn 1 [CallCancel 2 [StrV ''first'']], CancelFn 2]"]
  note b = C2_listeners_notified_once_in_order[OF h, of "[?E]"
      "[CancelFn 2, UserFn 1 [CallCancel 2 [StrV ''late'']]]"]
  from a obtain evs where evs:
    "calls (snd (cancel 1 [?E]
       (run_ops (map (Subscribe 1) [UserFn 1 [CallCancel 2 [StrV ''first'']], CancelFn 2])
          three_sources))) = calls three_sources @ evs"
    "map invoked evs = map (\<lambda>l. (ByCancel 1, l, reason_or_default 1 (arg0 [?E])))
       (listeners ?d @ [UserFn 1 [CallCancel 2 [StrV ''first'']], CancelFn 2])"
    by blast
  have one: "throwIfCanceled 2 (snd (cancel 1 [?E]
       (run_ops (map (Subscribe 1) [UserFn 1 [CallCancel 2 [StrV ''first'']], CancelFn 2])
          three_sources))) = Throws (StrV ''first'')"
    unfolding a[THEN conjunct2, THEN conjunct1]
    by (simp add: three_sources_eval delivery_def cancel.simps lookup_def store_def Let_def
        reason_or_default_def record_call_def throwIfCanceled_def)
  have two: "throwIfCanceled 2 (snd (cancel 1 [?E]
       (run_ops (map (Subscribe 1) [CancelFn 2, UserFn 1 [CallCancel 2 [StrV ''late'']]])
          three_sources))) = Throws ?E"
    unfolding b[THEN conjunct2, THEN conjunct1]
    by (simp add: three_sources_eval delivery_def cancel.simps lookup_def store_def Let_def
        reason_or_default_def record_call_def throwIfCanceled_def)
  from evs one two show ?thesis
    by (simp add: three_sources_eval reason_or_default_def)
qed

subsection \<open>C3: subscribing after cancellation\<close>

text \<open>
  Claim C3. On a source whose cancellation is committed (\<open>callback\<close> cleared, reason
  truthy), \<^verbatim>\<open>subscribe(listener)\<close> returns normally with the no-op subscription, and makes
  exactly one call \<^verbatim>\<open>listener(reason)\<close> with the committed reason before it returns.
  \<^item> The world it returns is the world one delivery to the listener leaves: if the
    listener is a function of the caller, its body has run, and what it threw is queued;
    if it is the \<^verbatim>\<open>cancel\<close> of a source that is not canceled, that source is now canceled
    with the committed reason.
  \<^item> One event is appended to the trace; \<open>nested\<close> are the calls the listener itself
    made.
  \<^item> Nothing is appended to \<open>listeners\<close>: the list afterwards is a subsequence of the
    list before, and the reason is unchanged.
  \<^item> \<^verbatim>\<open>unsubscribe\<close> of the returned subscription changes nothing.
\<close>

theorem C3_subscribe_after_cancel:
  assumes "lookup w p = Some d" and "\<not> callback d" and "truthy (reason d)"
  shows "fst (subscribe p l w) = Returns NoopSubscription \<and>
         snd (subscribe p l w) = delivery (BySubscribe p) (reason d) l w \<and>
         (\<forall>n body. l = UserFn n body \<longrightarrow>
            snd (subscribe p l w) =
              (case run_body body w of
                 (Returns u, w') \<Rightarrow> record_call (BySubscribe p) (UserFn n body) (reason d) w w'
               | (Throws error, w') \<Rightarrow>
                   setTimeout_throw error
                     (record_call (BySubscribe p) (UserFn n body) (reason d) w w'))) \<and>
         (\<forall>q dq. l = CancelFn q \<and> lookup w q = Some dq \<and> callback dq \<longrightarrow>
            throwIfCanceled q (snd (subscribe p l w)) = Throws (reason d)) \<and>
         (\<exists>nested. calls (snd (subscribe p l w)) =
                      calls w @ [Invoke (BySubscribe p) l (reason d) nested]) \<and>
         (\<exists>d'. lookup (snd (subscribe p l w)) p = Some d' \<and> reason d' = reason d \<and>
                subseq (listeners d') (listeners d)) \<and>
         (\<forall>w2. unsubscribe NoopSubscription w2 = w2)"
proof -
  have s: "subscribe p l w =
      (Returns NoopSubscription, snd (invokeListener (BySubscribe p) (reason d) l w))"
    using assms(1,3) by (rule subscribe_committed)
  have run: "snd (subscribe p l w) = delivery (BySubscribe p) (reason d) l w"
    using assms(1,3) by (rule subscribe_delivery)
  have seen: "throwIfCanceled q (snd (subscribe p l w)) = Throws (reason d)"
    if "l = CancelFn q" "lookup w q = Some dq" "callback dq" for q dq
    using subscribe_committed_cancel[OF assms(1,3) that(2,3)] assms(3)
    by (auto simp: that(1) throwIfCanceled_def)
  obtain d' where "lookup (snd (invokeListener (BySubscribe p) (reason d) l w)) p = Some d'"
    "data_advances d d'"
    using advances_lookup[OF exec_advances(1) assms(1)] by blast
  then have kept: "\<exists>d'. lookup (snd (subscribe p l w)) p = Some d' \<and> reason d' = reason d \<and>
      subseq (listeners d') (listeners d)"
    using assms(2,3) by (auto simp: s data_advances_def)
  have tr: "\<exists>nested. calls (snd (subscribe p l w)) =
      calls w @ [Invoke (BySubscribe p) l (reason d) nested]"
    using invokeListener_calls[of "BySubscribe p" "reason d" l w] by (simp add: s)
  have body: "snd (subscribe p l w) =
      (case run_body body w of
         (Returns u, w') \<Rightarrow> record_call (BySubscribe p) (UserFn n body) (reason d) w w'
       | (Throws error, w') \<Rightarrow>
           setTimeout_throw error (record_call (BySubscribe p) (UserFn n body) (reason d) w w'))"
    if "l = UserFn n body" for n body
    by (subst run) (simp add: delivery_def that)
  show ?thesis
    apply (intro conjI)
          apply (simp add: s)
         apply (rule run)
        apply (intro allI impI, erule body)
       apply (intro allI impI, elim conjE, erule (2) seen)
      apply (rule tr)
     apply (rule kept)
    apply simp
    done
qed

theorem C3_witness:
  "fst (subscribe 1 (CancelFn 2) (snd (cancel 1 [ErrorV (Caller 0) ''Timeout''] three_sources))) =
     Returns NoopSubscription \<and>
   throwIfCanceled 2
     (snd (subscribe 1 (CancelFn 2) (snd (cancel 1 [ErrorV (Caller 0) ''Timeout''] three_sources)))) =
     Throws (ErrorV (Caller 0) ''Timeout'') \<and>
   throwIfCanceled 2
     (snd (subscribe 1 (UserFn 1 [CallCancel 2 [StrV ''ran'']])
        (snd (cancel 1 [ErrorV (Caller 0) ''Timeout''] three_sources)))) = Throws (StrV ''ran'') \<and>
   calls (snd (subscribe 1 (UserFn 1 [CallCancel 2 [StrV ''ran'']])
        (snd (cancel 1 [ErrorV (Caller 0) ''Timeout''] three_sources)))) =
     [Invoke (BySubscribe 1) (UserFn 1 [CallCancel 2 [StrV ''ran'']])
        (ErrorV (Caller 0) ''Timeout'') []] \<and>
   lookup (snd (subscribe 1 (UserFn 1 [CallCancel 2 [StrV ''ran'']])
        (snd (cancel 1 [ErrorV (Caller 0) ''Timeout''] three_sources)))) 1 =
     Some \<lparr>reason = ErrorV (Caller 0) ''Timeout'', listeners = [], callback = False\<rparr>"
proof -
  let ?E = "ErrorV (Caller 0) ''Timeout''"
  let ?d = "\<lparr>reason = ?E, listeners = [], callback = False\<rparr>"
  let ?d2 = "\<lparr>reason = Null, listeners = [], callback = True\<rparr>"
  let ?f = "UserFn 1 [CallCancel 2 [StrV ''ran'']]"
  have h: "lookup (snd (cancel 1 [?E] three_sources)) 1 = Some ?d"
    "\<not> callback ?d" "truthy (reason ?d)"
    unfolding cancel_three_sources_eval by (simp_all add: lookup_def)
  have k: "CancelFn 2 = CancelFn 2 \<and> lookup (snd (cancel 1 [?E] three_sources)) 2 = Some ?d2 \<and>
      callback ?d2"
    unfolding cancel_three_sources_eval by (simp add: lookup_def)
  note a = C3_subscribe_after_cancel[OF h, of "CancelFn 2"]
  note b = C3_subscribe_after_cancel[OF h, of ?f]
  note a4 = a[THEN conjunct2, THEN conjunct2, THEN conjunct2, THEN conjunct1, rule_format, OF k]
  have ran: "snd (subscribe 1 ?f (snd (cancel 1 [?E] three_sources))) =
      \<lparr>pairs = [\<lparr>reason = Null, listeners = [], callback = True\<rparr>,
         \<lparr>reason = ?E, listeners = [], callback = False\<rparr>,
         \<lparr>reason = StrV ''ran'', listeners = [], callback = False\<rparr>],
       timers = [], type_errors = 0,
       calls = [Invoke (BySubscribe 1) ?f ?E []]\<rparr>"
    apply (subst b[THEN conjunct2, THEN conjunct1])
    apply (unfold cancel_three_sources_eval)
    apply (simp add: delivery_def cancel.simps lookup_def store_def Let_def
        reason_or_default_def record_call_def)
    done
  from a a4 show ?thesis
    unfolding ran by (simp add: throwIfCanceled_def lookup_def)
qed

subsection \<open>C4: unsubscribing before cancellation\<close>

text \<open>
  Claim C4 says that a listener subscribed and then unsubscribed before the cancellation
  is never invoked by it. Line 109 removes a listener with \<^verbatim>\<open>el !== listener\<close>, and
  \<^verbatim>\<open>NaN !== NaN\<close> is true: for the listener \<open>NaN\<close> the filter removes nothing. After
  \<^verbatim>\<open>s = token.subscribe(NaN); s.unsubscribe(); cancel('Timeout')\<close> the batch still evaluates
  \<^verbatim>\<open>listener(reason)\<close> for it on line 35, and the \<^verbatim>\<open>TypeError\<close> of that call is thrown by the
  next tick.
\<close>

theorem C4_counterexample:
  "fst (subscribe 1 NaN fresh_pair) = Returns (ListenerSubscription 1 NaN) \<and>
   calls (snd (cancel 1 [StrV ''Timeout'']
     (unsubscribe (ListenerSubscription 1 NaN) (snd (subscribe 1 NaN fresh_pair))))) =
     [Invoke (ByCancel 1) NaN (StrV ''Timeout'') []] \<and>
   fst (tick (snd (cancel 1 [StrV ''Timeout'']
     (unsubscribe (ListenerSubscription 1 NaN) (snd (subscribe 1 NaN fresh_pair)))))) =
     Throws (TypeErrorV 0 ''listener is not a function'')"
  by (simp add: fresh_pair_eval subscribe.simps cancel.simps invokeListener.simps call.simps
      lookup_def store_def Let_def reason_or_default_def strict_neq_def
      setTimeout_throw_def record_call_def tick_def)

text \<open>
  Claim C4, amended. On a source that is not canceled, \<^verbatim>\<open>subscribe(l)\<close> returns the
  subscription that filters \<open>l\<close> out.
  \<^item> For every listener \<open>l\<close> but \<open>NaN\<close>: if \<open>l\<close> was not subscribed before, \<^verbatim>\<open>unsubscribe()\<close>
    right after \<^verbatim>\<open>subscribe(l)\<close> gives back the world as it was, so whatever follows is as
    if \<open>l\<close> had never been subscribed; and in general what \<^verbatim>\<open>unsubscribe()\<close> leaves is the
    listeners other than \<open>l\<close>, in their order.
  \<^item> For \<open>NaN\<close>, \<^verbatim>\<open>unsubscribe()\<close> changes nothing.
  \<^item> After \<^verbatim>\<open>unsubscribe()\<close>, \<^verbatim>\<open>cancel\<close> makes its calls for exactly the listeners that are
    left, in their order, and the world it returns is the committed world taken through
    the delivery to each of them in turn: if \<open>l\<close> is not \<open>NaN\<close> then \<open>l\<close> is not called, and
    every other listener still is.
  \<^item> Removing a listener that is not in the list changes nothing, and a second
    \<^verbatim>\<open>unsubscribe()\<close> changes nothing more.
\<close>

theorem C4_unsubscribed_listener_excluded:
  assumes "lookup w p = Some d" and "callback d" and "\<not> truthy (reason d)"
  shows "fst (subscribe p l w) = Returns (ListenerSubscription p l) \<and>
         (l \<noteq> NaN \<and> l \<notin> set (listeners d) \<longrightarrow>
            unsubscribe (ListenerSubscription p l) (snd (subscribe p l w)) = w) \<and>
         (l \<noteq> NaN \<longrightarrow>
            filter (\<lambda>el. strict_neq el l) (listeners d) = filter (\<lambda>el. el \<noteq> l) (listeners d)) \<and>
         (l = NaN \<longrightarrow> unsubscribe (ListenerSubscription p l) w = w) \<and>
         (\<exists>evs.
            calls (snd (cancel p args (unsubscribe (ListenerSubscription p l) w))) = calls w @ evs \<and>
            map invoked evs =
              map (\<lambda>x. (ByCancel p, x, reason_or_default p (arg0 args)))
                (filter (\<lambda>el. strict_neq el l) (listeners d)) \<and>
            (l \<noteq> NaN \<longrightarrow> (\<forall>ev \<in> set evs. fst (snd (invoked ev)) \<noteq> l))) \<and>
         snd (cancel p args (unsubscribe (ListenerSubscription p l) w)) =
           foldl (\<lambda>w x. delivery (ByCancel p) (reason_or_default p (arg0 args)) x w)
             (store p (d\<lparr>listeners := filter (\<lambda>el. strict_neq el l) (listeners d),
                         callback := False, reason := reason_or_default p (arg0 args)\<rparr>) w)
             (filter (\<lambda>el. strict_neq el l) (listeners d)) \<and>
         (l \<notin> set (listeners d) \<longrightarrow> unsubscribe (ListenerSubscription p l) w = w) \<and>
         unsubscribe (ListenerSubscription p l) (unsubscribe (ListenerSubscription p l) w) =
           unsubscribe (ListenerSubscription p l) w"
proof -
  let ?keep = "filter (\<lambda>el. strict_neq el l) (listeners d)"
  let ?d = "d\<lparr>listeners := ?keep\<rparr>"
  let ?s = "ListenerSubscription p l"
  let ?w1 = "unsubscribe ?s w"
  let ?r = "reason_or_default p (arg0 args)"
  have w1: "?w1 = store p ?d w"
    using assms(1) by (rule unsubscribe_pending)
  have l1: "lookup ?w1 p = Some ?d"
    unfolding w1 using assms(1) by (rule lookup_store_same)
  have c1: "callback ?d"
    using assms(2) by simp
  obtain evs where evs: "calls (snd (cancel p args ?w1)) = calls ?w1 @ evs"
    "map invoked evs = map (\<lambda>x. (ByCancel p, x, ?r)) (listeners ?d)"
    using cancel_calls[OF l1 c1, of args] by blast
  have "fst (snd (invoked ev)) \<noteq> l" if "ev \<in> set evs" "l \<noteq> NaN" for ev
  proof -
    have "invoked ev \<in> set (map invoked evs)"
      using that(1) by simp
    then obtain x where "x \<in> set ?keep" "invoked ev = (ByCancel p, x, ?r)"
      unfolding evs(2) by auto
    then show ?thesis
      using that(2) by (auto simp: strict_neq_def)
  qed
  moreover have "calls ?w1 = calls w"
    unfolding w1 by simp
  ultimately have tr: "\<exists>evs. calls (snd (cancel p args ?w1)) = calls w @ evs \<and>
      map invoked evs = map (\<lambda>x. (ByCancel p, x, ?r)) ?keep \<and>
      (l \<noteq> NaN \<longrightarrow> (\<forall>ev \<in> set evs. fst (snd (invoked ev)) \<noteq> l))"
    using evs by (auto simp del: unsubscribe.simps)
  have sub: "subscribe p l w = (Returns ?s, store p (d\<lparr>listeners := listeners d @ [l]\<rparr>) w)"
    using assms(1,3) by (rule subscribe_pending)
  have undo: "unsubscribe ?s (snd (subscribe p l w)) = w"
    if "l \<noteq> NaN" "l \<notin> set (listeners d)"
  proof -
    let ?d1 = "d\<lparr>listeners := listeners d @ [l]\<rparr>"
    have "lookup (store p ?d1 w) p = Some ?d1"
      using assms(1) by (rule lookup_store_same)
    moreover have "filter (\<lambda>el. strict_neq el l) (listeners d @ [l]) = listeners d"
      using that by (auto simp: strict_neq_def filter_id_conv)
    ultimately show ?thesis
      using store_same[OF assms(1)] by (simp add: sub)
  qed
  have same: "?keep = filter (\<lambda>el. el \<noteq> l) (listeners d)" if "l \<noteq> NaN"
    using that by (simp add: strict_neq_def)
  have nan: "?w1 = w" if "l = NaN"
  proof -
    have "?keep = listeners d"
      using that by (simp add: strict_neq_def)
    then show ?thesis
      unfolding w1 using store_same[OF assms(1)] by simp
  qed
  have run: "snd (cancel p args ?w1) =
      foldl (\<lambda>w x. delivery (ByCancel p) ?r x w)
        (store p (d\<lparr>listeners := ?keep, callback := False, reason := ?r\<rparr>) w) ?keep"
    using cancel_delivery[OF l1 c1, of args] by (simp add: w1 del: unsubscribe.simps)
  show ?thesis
    apply (intro conjI)
           apply (simp only: sub fst_conv)
          apply (intro impI, elim conjE, erule (1) undo)
         apply (intro impI, erule same)
        apply (intro impI, erule nan)
       apply (rule tr)
      apply (rule run)
     apply (intro impI, erule unsubscribe_absent[OF assms(1)])
    apply (rule unsubscribe_idem)
    done
qed

theorem C4_witness:
  "map invoked (calls (snd (cancel 1 []
       (unsubscribe (ListenerSubscription 1 (UserFn 1 [CallCancel 2 [StrV ''removed'']]))
          two_effects)))) =
     [(ByCancel 1, UserFn 2 [CallCancel 2 [StrV ''kept'']],
       ErrorV (DefaultOf 1) ''Operation Canceled'')] \<and>
   throwIfCanceled 2 (snd (cancel 1 []
       (unsubscribe (ListenerSubscription 1 (UserFn 1 [CallCancel 2 [StrV ''removed'']]))
          two_effects))) = Throws (StrV ''kept'') \<and>
   unsubscribe (ListenerSubscription 1 (UserFn 7 []))
     (snd (subscribe 1 (UserFn 7 []) two_effects)) = two_effects \<and>
   map invoked (calls (snd (cancel 1 []
       (unsubscribe (ListenerSubscription 1 (ErrorV (Caller 1) ''boom''))
          (run_ops [Subscribe 1 (ErrorV (Caller 1) ''boom''),
                    Subscribe 1 (ErrorV (Caller 2) ''boom'')] fresh_pair))))) =
     [(ByCancel 1, ErrorV (Caller 2) ''boom'', ErrorV (DefaultOf 1) ''Operation Canceled'')]"
proof -
  let ?l1 = "UserFn 1 [CallCancel 2 [StrV ''removed'']]"
  let ?l2 = "UserFn 2 [CallCancel 2 [StrV ''kept'']]"
  let ?d = "\<lparr>reason = Null, listeners = [?l1, ?l2], callback = True\<rparr>"
  let ?e1 = "ErrorV (Caller 1) ''boom''"
  let ?e2 = "ErrorV (Caller 2) ''boom''"
  let ?de = "\<lparr>reason = Null, listeners = [?e1, ?e2], callback = True\<rparr>"
  let ?we = "run_ops [Subscribe 1 ?e1, Subscribe 1 ?e2] fresh_pair"
  have h: "lookup two_effects 1 = Some ?d" "callback ?d" "\<not> truthy (reason ?d)"
    by (simp_all add: two_effects_eval lookup_def)
  have we: "?we =
      \<lparr>pairs = [\<lparr>reason = Null, listeners = [], callback = True\<rparr>, ?de],
       timers = [], type_errors = 0, calls = []\<rparr>"
    by (simp add: fresh_pair_eval subscribe.simps lookup_def store_def)
  have he: "lookup ?we 1 = Some ?de" "callback ?de" "\<not> truthy (reason ?de)"
    unfolding we by (simp_all add: lookup_def)
  have cwe: "calls ?we = []"
    unfolding we by simp
  note a = C4_unsubscribed_listener_excluded[OF h, of ?l1 "[]"]
  note b = C4_unsubscribed_listener_excluded[OF h, of "UserFn 7 []" "[]"]
  note c = C4_unsubscribed_listener_excluded[OF he, of ?e1 "[]"]
  from a obtain evs where evs:
    "calls (snd (cancel 1 [] (unsubscribe (ListenerSubscription 1 ?l1) two_effects))) =
       calls two_effects @ evs"
    "map invoked evs = map (\<lambda>x. (ByCancel 1, x, reason_or_default 1 (arg0 [])))
       (filter (\<lambda>el. strict_neq el ?l1) (listeners ?d))"
    by blast
  from c obtain evs2 where evs2:
    "calls (snd (cancel 1 [] (unsubscribe (ListenerSubscription 1 ?e1) ?we))) = calls ?we @ evs2"
    "map invoked evs2 = map (\<lambda>x. (ByCancel 1, x, reason_or_default 1 (arg0 [])))
       (filter (\<lambda>el. strict_neq el ?e1) (listeners ?de))"
    by blast
  have errors: "map invoked (calls (snd (cancel 1 []
      (unsubscribe (ListenerSubscription 1 ?e1) ?we)))) =
      [(ByCancel 1, ?e2, ErrorV (DefaultOf 1) ''Operation Canceled'')]"
    unfolding evs2(1) cwe using evs2(2)
    by (simp add: reason_or_default_def strict_neq_def)
  have k: "UserFn 7 [] \<noteq> NaN \<and> UserFn 7 [] \<notin> set (listeners ?d)"
    by simp
  note undo = b[THEN conjunct2, THEN conjunct1, rule_format, OF k]
  have kept: "throwIfCanceled 2 (snd (cancel 1 []
       (unsubscribe (ListenerSubscription 1 ?l1) two_effects))) = Throws (StrV ''kept'')"
    unfolding a[THEN conjunct2, THEN conjunct2, THEN conjunct2, THEN conjunct2, THEN conjunct2,
        THEN conjunct1]
    by (simp add: two_effects_eval delivery_def cancel.simps lookup_def store_def Let_def
        reason_or_default_def record_call_def throwIfCanceled_def strict_neq_def)
  from evs kept undo errors show ?thesis
    by (simp add: two_effects_eval reason_or_default_def strict_neq_def del: unsubscribe.simps)
qed

subsection \<open>C5: parents and children\<close>

lemma forEach_cancels:
  assumes "CancelFn c \<in> set ls" "truthy r" "lookup w c = Some dc"
    "callback dc \<or> truthy (reason dc)"
  shows "\<exists>d'. lookup (snd (forEach_invokeListener og r ls w)) c = Some d' \<and>
           \<not> callback d' \<and> truthy (reason d')"
proof -
  obtain before after where ls: "ls = before @ CancelFn c # after"
    using split_list[OF assms(1)] by blast
  let ?w1 = "snd (forEach_invokeListener og r before w)"
  let ?w2 = "snd (invokeListener og r (CancelFn c) ?w1)"
  let ?w3 = "snd (forEach_invokeListener og r after ?w2)"
  obtain d1 where d1: "lookup ?w1 c = Some d1" "callback d1 \<or> truthy (reason d1)"
    using advances_lookup[OF exec_advances(4) assms(3), of og r before] assms(4)
    by (auto simp: data_advances_def)
  obtain d2 where d2: "lookup ?w2 c = Some d2" "\<not> callback d2" "truthy (reason d2)"
    using cancel_by_listener[OF d1 assms(2), of og] by auto
  obtain d3 where "lookup ?w3 c = Some d3" "\<not> callback d3" "reason d3 = reason d2"
    using committed_stays[OF exec_advances(4) d2(1,2), of og r after] by blast
  with d2(3) show ?thesis
    by (simp add: ls forEach_append)
qed

text \<open>What \<^verbatim>\<open>create\<close> does to the child and to its parents.\<close>

lemma born_canceled:
  assumes valid: "\<forall>x \<in> set (ps1 @ q # ps2). x < length (pairs w)"
    and pending: "\<forall>x \<in> set ps1. \<not> isCanceled x w"
    and q: "lookup w q = Some dq" "truthy (reason dq)"
  shows "\<exists>d'. lookup (snd (createCancelSource (ps1 @ q # ps2) w)) (length (pairs w)) = Some d' \<and>
           \<not> callback d' \<and> reason d' = reason dq"
proof -
  let ?c = "length (pairs w)"
  let ?fresh = "\<lparr>reason = Null, listeners = [], callback = True\<rparr>"
  let ?wA = "w\<lparr>pairs := pairs w @ [?fresh]\<rparr>"
  let ?wB = "snd (map_subscribe ps1 (CancelFn ?c) ?wA)"
  let ?wC = "snd (subscribe q (CancelFn ?c) ?wB)"
  let ?wD = "snd (map_subscribe ps2 (CancelFn ?c) ?wC)"
  have w': "snd (createCancelSource (ps1 @ q # ps2) w) = ?wD"
    by (simp add: createCancelSource_snd map_subscribe_append_snd map_subscribe_Cons_snd
        del: map_subscribe.simps)
  have pendA: "\<forall>x \<in> set ps1. \<exists>d. lookup ?wA x = Some d \<and> \<not> truthy (reason d)"
    using valid pending not_canceled_pending[of _ w] by (auto simp: lookup_alloc)
  have "q < ?c"
    using valid by simp
  then have qA: "lookup ?wA q = Some dq"
    using q(1) by (simp add: lookup_alloc)
  have cA: "lookup ?wA ?c = Some ?fresh"
    by (simp add: lookup_alloc)
  have "?c \<notin> set ps1"
    using valid by auto
  then have cB: "lookup ?wB ?c = Some ?fresh"
    using map_subscribe_pending[OF pendA cA, of "CancelFn ?c"] by simp
  have qB: "lookup ?wB q =
      Some (dq\<lparr>listeners := listeners dq @ replicate (count_list ps1 q) (CancelFn ?c)\<rparr>)"
    using map_subscribe_pending[OF pendA qA] .
  obtain dC where dC: "lookup ?wC ?c = Some dC" "\<not> callback dC" "reason dC = reason dq"
    using subscribe_committed_cancel[OF qB _ cB] q(2) by auto
  have "advances ?wC ?wD"
    using map_subscribe_progresses by (rule progresses_advances)
  from committed_stays[OF this dC(1,2)] dC(3) show ?thesis
    by (simp add: w')
qed

lemma wired:
  assumes valid: "\<forall>x \<in> set ps. x < length (pairs w)"
    and pending: "\<forall>x \<in> set ps. \<not> isCanceled x w"
  shows "lookup (snd (createCancelSource ps w)) (length (pairs w)) =
           Some \<lparr>reason = Null, listeners = [], callback = True\<rparr>"
    and "lookup w q = Some dq \<Longrightarrow>
           lookup (snd (createCancelSource ps w)) q =
             Some (dq\<lparr>listeners := listeners dq @
                      replicate (count_list ps q) (CancelFn (length (pairs w)))\<rparr>)"
proof -
  let ?c = "length (pairs w)"
  let ?fresh = "\<lparr>reason = Null, listeners = [], callback = True\<rparr>"
  let ?wA = "w\<lparr>pairs := pairs w @ [?fresh]\<rparr>"
  have pendA: "\<forall>x \<in> set ps. \<exists>d. lookup ?wA x = Some d \<and> \<not> truthy (reason d)"
    using valid pending not_canceled_pending[of _ w] by (auto simp: lookup_alloc)
  have cA: "lookup ?wA ?c = Some ?fresh"
    by (simp add: lookup_alloc)
  have "?c \<notin> set ps"
    using valid by auto
  then show "lookup (snd (createCancelSource ps w)) ?c = Some ?fresh"
    using map_subscribe_pending[OF pendA cA, of "CancelFn ?c"]
    by (simp add: createCancelSource_snd)
  assume "lookup w q = Some dq"
  then have "lookup ?wA q = Some dq"
    by (auto simp: lookup_def nth_append split: if_splits)
  from map_subscribe_pending[OF pendA this, of "CancelFn ?c"]
  show "lookup (snd (createCancelSource ps w)) q =
      Some (dq\<lparr>listeners := listeners dq @ replicate (count_list ps q) (CancelFn ?c)\<rparr>)"
    by (simp add: createCancelSource_snd)
qed

text \<open>
  The link of a child to a parent survives every call that does not unsubscribe the
  child's \<^verbatim>\<open>cancel\<close>. Inside the parent's own batch the link is not there (the parent is
  canceled, the child not yet); the case of \<open>cancel\<close> restores it from the batch itself.
\<close>

lemma unsubscribe_free_setTimeout [simp]:
  "unsubscribe_free x (setTimeout_throw e w) = unsubscribe_free x w"
  by (simp add: unsubscribe_free_def setTimeout_throw_def)

lemma unsubscribe_free_type_errors [simp]:
  "unsubscribe_free x (w\<lparr>type_errors := n\<rparr>) = unsubscribe_free x w"
  by (simp add: unsubscribe_free_def)

lemma cascades_type_errors [simp]: "cascades q c (w\<lparr>type_errors := n\<rparr>) = cascades q c w"
  by (simp add: cascades_def)

lemma unsubscribe_free_record_call [simp]:
  "unsubscribe_free x (record_call og l r w w') = unsubscribe_free x w'"
  by (simp add: unsubscribe_free_def record_call_def)

lemma cascades_setTimeout [simp]: "cascades q c (setTimeout_throw e w) = cascades q c w"
  by (simp add: cascades_def)

lemma cascades_record_call [simp]: "cascades q c (record_call og l r w w') = cascades q c w'"
  by (simp add: cascades_def)

lemma unsubscribe_free_store:
  assumes "unsubscribe_free x w" "\<forall>l \<in> set (listeners d'). \<not> unsubscribes x l"
  shows "unsubscribe_free x (store p d' w)"
proof -
  have "\<forall>l \<in> set (listeners y). \<not> unsubscribes x l" if "y \<in> set (pairs (store p d' w))" for y
  proof -
    have "y \<in> insert d' (set (pairs w))"
      using that set_update_subset_insert[of "pairs w" p d'] by (auto simp: store_def)
    then show ?thesis
      using assms by (auto simp: unsubscribe_free_def)
  qed
  then show ?thesis
    by (simp add: unsubscribe_free_def)
qed

lemma unsubscribe_free_listeners:
  "unsubscribe_free x w \<Longrightarrow> lookup w p = Some d \<Longrightarrow> l \<in> set (listeners d) \<Longrightarrow>
     \<not> unsubscribes x l"
  by (auto simp: unsubscribe_free_def lookup_def split: if_splits)

text \<open>A store that leaves the link of \<open>q\<close> and \<open>c\<close> alone.\<close>

lemma cascades_store:
  assumes "cascades q c w" "lookup w p = Some d"
    and "p = q \<longrightarrow> callback d' = callback d \<and> reason d' = reason d \<and>
           (CancelFn c \<in> set (listeners d) \<longrightarrow> CancelFn c \<in> set (listeners d'))"
    and "p = c \<longrightarrow> (callback d' = callback d \<and> reason d' = reason d) \<or>
           (\<not> callback d' \<and> truthy (reason d'))"
  shows "cascades q c (store p d' w)"
proof -
  obtain dq dc where o: "lookup w q = Some dq" "lookup w c = Some dc"
    "callback dq \<and> \<not> truthy (reason dq) \<and> CancelFn c \<in> set (listeners dq) \<and>
       (callback dc \<or> truthy (reason dc)) \<or> \<not> callback dc \<and> truthy (reason dc)"
    using assms(1) by (auto simp: cascades_def)
  let ?dq = "if q = p then d' else dq"
  let ?dc = "if c = p then d' else dc"
  have "lookup (store p d' w) q = Some ?dq" "lookup (store p d' w) c = Some ?dc"
    using o(1,2) by (simp_all add: lookup_store[OF assms(2)])
  moreover have "callback ?dq \<and> \<not> truthy (reason ?dq) \<and> CancelFn c \<in> set (listeners ?dq) \<and>
       (callback ?dc \<or> truthy (reason ?dc)) \<or> \<not> callback ?dc \<and> truthy (reason ?dc)"
    using o assms(2,3,4) by (cases "q = p"; cases "c = p") auto
  ultimately show ?thesis
    unfolding cascades_def by blast
qed

lemma cascades_cancel:
  assumes casc: "cascades q c w" and p: "lookup w p = Some d" "callback d"
    and ih: "cascades q c (store p (d\<lparr>callback := False, reason := r\<rparr>) w) \<longrightarrow>
               cascades q c (snd (forEach_invokeListener (ByCancel p) r (listeners d)
                 (store p (d\<lparr>callback := False, reason := r\<rparr>) w)))"
    and r: "truthy r"
  shows "cascades q c (snd (forEach_invokeListener (ByCancel p) r (listeners d)
           (store p (d\<lparr>callback := False, reason := r\<rparr>) w)))"
proof -
  let ?d0 = "d\<lparr>callback := False, reason := r\<rparr>"
  let ?w0 = "store p ?d0 w"
  let ?w' = "snd (forEach_invokeListener (ByCancel p) r (listeners d) ?w0)"
  obtain dq dc where o: "lookup w q = Some dq" "lookup w c = Some dc"
    "callback dq \<and> \<not> truthy (reason dq) \<and> CancelFn c \<in> set (listeners dq) \<and>
       (callback dc \<or> truthy (reason dc)) \<or> \<not> callback dc \<and> truthy (reason dc)"
    using casc by (auto simp: cascades_def)
  have lq: "lookup ?w0 q = Some (if q = p then ?d0 else dq)"
    using o(1) by (simp add: lookup_store[OF p(1)])
  have lc: "lookup ?w0 c = Some (if c = p then ?d0 else dc)"
    using o(2) by (simp add: lookup_store[OF p(1)])
  show ?thesis
  proof (cases "\<not> callback dc \<and> truthy (reason dc)")
    case True
    then have "c \<noteq> p"
      using o(2) p by auto
    then have "cascades q c ?w0"
      using lq lc True unfolding cascades_def by auto
    with ih show ?thesis by blast
  next
    case False
    then have first: "callback dq" "\<not> truthy (reason dq)" "CancelFn c \<in> set (listeners dq)"
      "callback dc \<or> truthy (reason dc)"
      using o(3) by auto
    show ?thesis
    proof (cases "p = q")
      case True
      then have wired: "CancelFn c \<in> set (listeners d)"
        using o(1) p(1) first(3) by auto
      have d0: "lookup ?w0 c = Some (if c = p then ?d0 else dc)"
        "callback (if c = p then ?d0 else dc) \<or> truthy (reason (if c = p then ?d0 else dc))"
        using lc first(4) r by auto
      obtain d' where d': "lookup ?w' c = Some d'" "\<not> callback d'" "truthy (reason d')"
        using forEach_cancels[OF wired r d0, of "ByCancel p"] by blast
      obtain dq' where "lookup ?w' q = Some dq'"
        using advances_lookup[OF exec_advances(4) lq, of "ByCancel p" r "listeners d"]
        by blast
      with d' show ?thesis
        unfolding cascades_def by blast
    next
      case False
      then have "cascades q c ?w0"
        using lq lc first r unfolding cascades_def by (cases "c = p") auto
      with ih show ?thesis by blast
    qed
  qed
qed

lemma unsubscribe_free_unsubscribe:
  "unsubscribe_free x w \<Longrightarrow> unsubscribe_free x (unsubscribe s w)"
proof (cases s)
  case NoopSubscription
  then show "unsubscribe_free x w \<Longrightarrow> ?thesis" by simp
next
  case (ListenerSubscription p l)
  assume k: "unsubscribe_free x w"
  show ?thesis
  proof (cases "lookup w p")
    case None
    with k ListenerSubscription show ?thesis by simp
  next
    case (Some d)
    have "unsubscribe_free x
        (store p (d\<lparr>listeners := filter (\<lambda>el. strict_neq el l) (listeners d)\<rparr>) w)"
      using unsubscribe_free_listeners[OF k Some]
      by (intro unsubscribe_free_store[OF k]) auto
    with Some ListenerSubscription show ?thesis by simp
  qed
qed

lemma cascades_unsubscribe:
  assumes "cascades q c w" "l \<noteq> CancelFn c"
  shows "cascades q c (unsubscribe (ListenerSubscription p l) w)"
proof (cases "lookup w p")
  case None
  with assms show ?thesis by simp
next
  case (Some d)
  have "cascades q c (store p (d\<lparr>listeners := filter (\<lambda>el. strict_neq el l) (listeners d)\<rparr>) w)"
    using assms(2) by (intro cascades_store[OF assms(1) Some]) (auto simp: strict_neq_def)
  with Some show ?thesis by simp
qed

lemma cascades_subscribe_pending:
  assumes "cascades q c w" "lookup w p = Some d"
  shows "cascades q c (store p (d\<lparr>listeners := listeners d @ [l]\<rparr>) w)"
  by (intro cascades_store[OF assms]) auto

lemma exec_cascades:
  "unsubscribe_free (CancelFn c) w \<Longrightarrow> \<not> unsubscribes (CancelFn c) l \<Longrightarrow>
     unsubscribe_free (CancelFn c) (snd (invokeListener og r l w)) \<and>
     (cascades q c w \<longrightarrow> cascades q c (snd (invokeListener og r l w)))"
  "unsubscribe_free (CancelFn c) w \<Longrightarrow> \<not> unsubscribes (CancelFn c) f \<Longrightarrow>
     unsubscribe_free (CancelFn c) (snd (call f args w)) \<and>
     (cascades q c w \<longrightarrow> cascades q c (snd (call f args w)))"
  "unsubscribe_free (CancelFn c) w \<Longrightarrow>
     unsubscribe_free (CancelFn c) (snd (cancel p args w)) \<and>
     (cascades q c w \<longrightarrow> cascades q c (snd (cancel p args w)))"
  "unsubscribe_free (CancelFn c) w \<Longrightarrow> \<forall>x \<in> set ls. \<not> unsubscribes (CancelFn c) x \<Longrightarrow>
     truthy r \<Longrightarrow>
     unsubscribe_free (CancelFn c) (snd (forEach_invokeListener og r ls w)) \<and>
     (cascades q c w \<longrightarrow> cascades q c (snd (forEach_invokeListener og r ls w)))"
  "unsubscribe_free (CancelFn c) w \<Longrightarrow> \<not> unsubscribes (CancelFn c) l \<Longrightarrow>
     unsubscribe_free (CancelFn c) (snd (subscribe p l w)) \<and>
     (cascades q c w \<longrightarrow> cascades q c (snd (subscribe p l w)))"
  "unsubscribe_free (CancelFn c) w \<Longrightarrow> \<forall>a \<in> set body. \<not> action_unsubscribes (CancelFn c) a \<Longrightarrow>
     unsubscribe_free (CancelFn c) (snd (run_body body w)) \<and>
     (cascades q c w \<longrightarrow> cascades q c (snd (run_body body w)))"
proof (induct og r l w and f args w and p args w and og r ls w and p l w and body w
    rule: invokeListener_call_cancel_forEach_invokeListener_subscribe_run_body.induct)
  case (1 og r listener w)
  from 1(1)[OF 1(2,3)] show ?case
    by (cases "call listener [r] w") (auto simp: invokeListener.simps split: outcome.splits)
next
  case (2 f args w)
  then show ?case by (cases f) (auto simp: call.simps)
next
  case (3 p args w)
  show ?case
  proof (cases "lookup w p")
    case None
    with 3 show ?thesis by (simp add: cancel.simps)
  next
    case (Some d)
    show ?thesis
    proof (cases "callback d")
      case False
      with 3 Some show ?thesis by (simp add: cancel.simps)
    next
      case True
      let ?r = "reason_or_default p (arg0 args)"
      let ?w0 = "store p (d\<lparr>callback := False, reason := ?r\<rparr>) w"
      have clean: "\<forall>x \<in> set (listeners d). \<not> unsubscribes (CancelFn c) x"
        using unsubscribe_free_listeners[OF 3(2) Some] by blast
      have k0: "unsubscribe_free (CancelFn c) ?w0"
        using clean by (intro unsubscribe_free_store[OF 3(2)]) simp
      note ih = 3(1)[OF Some True refl refl k0 clean reason_or_default_truthy]
      have "cascades q c (snd (forEach_invokeListener (ByCancel p) ?r (listeners d) ?w0))"
        if "cascades q c w"
        using cascades_cancel[OF that Some True _ reason_or_default_truthy] ih by blast
      with ih show ?thesis
        by (simp add: cancel_live[OF Some True])
    qed
  qed
next
  case (4 og r w)
  then show ?case by simp
next
  case (5 og r listener rest w)
  let ?w1 = "snd (invokeListener og r listener w)"
  have a: "unsubscribe_free (CancelFn c) ?w1 \<and> (cascades q c w \<longrightarrow> cascades q c ?w1)"
    using 5 by simp
  have "unsubscribe_free (CancelFn c) (snd (forEach_invokeListener og r rest ?w1)) \<and>
      (cascades q c ?w1 \<longrightarrow> cascades q c (snd (forEach_invokeListener og r rest ?w1)))"
    using 5(2)[of "Returns ()" ?w1 "()"] invokeListener_eq_snd[of og r listener w] a 5(4,5)
    by simp
  with a show ?case by simp
next
  case (6 p listener w)
  show ?case
  proof (cases "lookup w p")
    case None
    with 6 show ?thesis by (simp add: subscribe.simps)
  next
    case (Some d)
    show ?thesis
    proof (cases "truthy (reason d)")
      case True
      with 6(1)[OF Some True 6(2,3)] Some show ?thesis
        by (simp add: subscribe_committed)
    next
      case False
      have "unsubscribe_free (CancelFn c) (store p (d\<lparr>listeners := listeners d @ [listener]\<rparr>) w)"
        using unsubscribe_free_listeners[OF 6(2) Some] 6(3)
        by (intro unsubscribe_free_store[OF 6(2)]) auto
      with Some False cascades_subscribe_pending[OF _ Some, of q c listener] show ?thesis
        by (simp add: subscribe_pending)
    qed
  qed
next
  case (7 w)
  then show ?case by simp
next
  case (8 error rest w)
  then show ?case by simp
next
  case (9 p args rest w)
  obtain w1 where e: "cancel p args w = (Returns (), w1)"
    using cancel_returns[of p args w] by (cases "cancel p args w") auto
  have a: "unsubscribe_free (CancelFn c) w1 \<and> (cascades q c w \<longrightarrow> cascades q c w1)"
    using 9(1)[OF 9(3)] by (simp add: e)
  have "unsubscribe_free (CancelFn c) (snd (run_body rest w1)) \<and>
      (cascades q c w1 \<longrightarrow> cascades q c (snd (run_body rest w1)))"
    using 9(2)[OF e[symmetric] refl] a 9(4) by simp
  with a show ?case
    by (simp add: e)
next
  case (10 p listener rest w)
  obtain s w1 where e: "subscribe p listener w = (Returns s, w1)"
    using subscribe_eq_snd by blast
  have a: "unsubscribe_free (CancelFn c) w1 \<and> (cascades q c w \<longrightarrow> cascades q c w1)"
    using 10(1)[OF 10(3)] 10(4) by (simp add: e)
  have "unsubscribe_free (CancelFn c) (snd (run_body rest w1)) \<and>
      (cascades q c w1 \<longrightarrow> cascades q c (snd (run_body rest w1)))"
    using 10(2)[OF e[symmetric] refl] a 10(4) by simp
  with a show ?case
    by (simp add: e)
next
  case (11 p listener rest w)
  let ?w1 = "unsubscribe (ListenerSubscription p listener) w"
  have "unsubscribe_free (CancelFn c) ?w1"
    using 11(2) by (rule unsubscribe_free_unsubscribe)
  moreover have "cascades q c w \<longrightarrow> cascades q c ?w1"
    using 11(3) cascades_unsubscribe[of q c w listener p] by auto
  ultimately show ?case
    using 11(1) 11(3) by (simp del: unsubscribe.simps)
next
  case (12 p rest w)
  then show ?case by (auto split: outcome.splits)
qed

lemma map_subscribe_cascades:
  "unsubscribe_free (CancelFn c) w \<Longrightarrow> \<not> unsubscribes (CancelFn c) l \<Longrightarrow>
     unsubscribe_free (CancelFn c) (snd (map_subscribe ps l w)) \<and>
     (cascades q c w \<longrightarrow> cascades q c (snd (map_subscribe ps l w)))"
proof (induction ps arbitrary: w)
  case Nil
  then show ?case by simp
next
  case (Cons x ps)
  let ?w1 = "snd (subscribe x l w)"
  have a: "unsubscribe_free (CancelFn c) ?w1 \<and> (cascades q c w \<longrightarrow> cascades q c ?w1)"
    using Cons.prems by (rule exec_cascades(5))
  from Cons.IH[of ?w1] a Cons.prems(2) show ?case
    by (simp add: map_subscribe_Cons_snd del: map_subscribe.simps)
qed

lemma alloc_cascades:
  "unsubscribe_free x (w\<lparr>pairs := pairs w @ [\<lparr>reason = Null, listeners = [], callback = True\<rparr>]\<rparr>) =
     unsubscribe_free x w"
  "cascades q c w \<Longrightarrow>
     cascades q c (w\<lparr>pairs := pairs w @ [\<lparr>reason = Null, listeners = [], callback = True\<rparr>]\<rparr>)"
proof -
  show "unsubscribe_free x (w\<lparr>pairs := pairs w @ [\<lparr>reason = Null, listeners = [], callback = True\<rparr>]\<rparr>) =
     unsubscribe_free x w"
    by (auto simp: unsubscribe_free_def)
  assume "cascades q c w"
  then obtain dq dc where o: "lookup w q = Some dq" "lookup w c = Some dc"
    "callback dq \<and> \<not> truthy (reason dq) \<and> CancelFn c \<in> set (listeners dq) \<and>
       (callback dc \<or> truthy (reason dc)) \<or> \<not> callback dc \<and> truthy (reason dc)"
    by (auto simp: cascades_def)
  have "q \<noteq> length (pairs w)" "c \<noteq> length (pairs w)"
    using o(1,2) by (auto simp: lookup_def split: if_splits)
  then show "cascades q c
      (w\<lparr>pairs := pairs w @ [\<lparr>reason = Null, listeners = [], callback = True\<rparr>]\<rparr>)"
    using o unfolding cascades_def by (simp add: lookup_alloc)
qed

lemma createCancelSource_cascades:
  assumes "unsubscribe_free (CancelFn c) w"
  shows "unsubscribe_free (CancelFn c) (snd (createCancelSource ps w)) \<and>
         (cascades q c w \<longrightarrow> cascades q c (snd (createCancelSource ps w)))"
  using map_subscribe_cascades[of c
      "w\<lparr>pairs := pairs w @ [\<lparr>reason = Null, listeners = [], callback = True\<rparr>]\<rparr>"
      "CancelFn (length (pairs w))" ps q] assms alloc_cascades(2)[of q c w]
  by (simp add: createCancelSource_snd alloc_cascades(1))

lemma tick_cascades:
  "unsubscribe_free x (snd (tick w)) = unsubscribe_free x w"
  "cascades q c (snd (tick w)) = cascades q c w"
  by (simp_all add: tick_def unsubscribe_free_def cascades_def lookup_def split: list.splits)

lemma step_cascades:
  assumes "unsubscribe_free (CancelFn c) w" "\<not> op_unsubscribes (CancelFn c) x"
  shows "unsubscribe_free (CancelFn c) (step x w) \<and>
         (cascades q c w \<longrightarrow> cascades q c (step x w))"
proof (cases x)
  case (Create ps)
  with assms createCancelSource_cascades[of c w ps q] show ?thesis by simp
next
  case (Cancel p args)
  with assms exec_cascades(3)[of c w p args q] show ?thesis by simp
next
  case (Subscribe p l)
  with assms exec_cascades(5)[of c w l p q] show ?thesis by simp
next
  case (Unsubscribe s)
  show ?thesis
  proof (cases s)
    case NoopSubscription
    with assms Unsubscribe show ?thesis by simp
  next
    case (ListenerSubscription p l)
    with assms Unsubscribe unsubscribe_free_unsubscribe[of "CancelFn c" w s]
      cascades_unsubscribe[of q c w l p]
    show ?thesis by (auto simp del: unsubscribe.simps)
  qed
next
  case (IsCanceled p)
  with assms show ?thesis by simp
next
  case (ThrowIfCanceled p)
  with assms show ?thesis by simp
next
  case Tick
  with assms show ?thesis by (simp add: tick_cascades)
qed

lemma run_ops_cascades:
  "unsubscribe_free (CancelFn c) w \<Longrightarrow> \<forall>x \<in> set xs. \<not> op_unsubscribes (CancelFn c) x \<Longrightarrow>
     cascades q c w \<Longrightarrow> cascades q c (run_ops xs w)"
proof (induction xs arbitrary: w)
  case Nil
  then show ?case by simp
next
  case (Cons x xs)
  have "unsubscribe_free (CancelFn c) (step x w) \<and> cascades q c (step x w)"
    using step_cascades[of c w x q] Cons.prems by simp
  with Cons.IH[of "step x w"] Cons.prems(2) show ?case by simp
qed

lemma createCancelSource_links:
  assumes valid: "\<forall>x \<in> set ps. x < length (pairs w)"
    and wf: "\<forall>x \<in> set ps. \<forall>d. lookup w x = Some d \<longrightarrow> callback d = (\<not> truthy (reason d))"
    and q: "q \<in> set ps"
  shows "cascades q (length (pairs w)) (snd (createCancelSource ps w))"
proof -
  let ?c = "length (pairs w)"
  let ?w' = "snd (createCancelSource ps w)"
  obtain dq where dq: "lookup w q = Some dq"
    using valid q by (auto simp: lookup_def)
  show ?thesis
  proof (cases "\<exists>x \<in> set ps. isCanceled x w")
    case True
    then obtain ps1 x ps2 where sp: "ps = ps1 @ x # ps2" "isCanceled x w"
      "\<forall>y \<in> set ps1. \<not> isCanceled y w"
      using split_list_first_prop[of ps "\<lambda>x. isCanceled x w"] by blast
    obtain dx where dx: "lookup w x = Some dx" "truthy (reason dx)"
      using sp(2) by (auto simp: isCanceled_def split: option.splits)
    obtain d' where d': "lookup ?w' ?c = Some d'" "\<not> callback d'" "reason d' = reason dx"
      using born_canceled[OF valid[unfolded sp(1)] sp(3) dx] by (auto simp: sp(1))
    obtain dq' where "lookup ?w' q = Some dq'"
      using advances_lookup[OF createCancelSource_advances dq] by blast
    with d' dx(2) show ?thesis
      unfolding cascades_def by auto
  next
    case False
    then have pend: "\<forall>x \<in> set ps. \<not> isCanceled x w"
      by blast
    have "\<not> truthy (reason dq)"
      using pend q dq by (auto simp: isCanceled_def)
    then have "callback dq"
      using wf q dq by auto
    have "CancelFn ?c \<in> set (replicate (count_list ps q) (CancelFn ?c))"
      using count_list_pos[OF q] by simp
    with wired[OF valid pend] dq \<open>callback dq\<close> \<open>\<not> truthy (reason dq)\<close> show ?thesis
      unfolding cascades_def by auto
  qed
qed

lemma cascades_canceled:
  "cascades q c w \<Longrightarrow> isCanceled q w \<Longrightarrow> isCanceled c w"
  by (auto simp: cascades_def isCanceled_def)

text \<open>
  Claim C5 says that every child is canceled as soon as one of its parents cancels. The
  factory links the child by an ordinary subscription of the child's \<^verbatim>\<open>cancel\<close> (line 63),
  and \<^verbatim>\<open>unsubscribe\<close> removes a listener by identity, every occurrence of it (line 109).
  So the program
  \<^verbatim>\<open>p = create(); c = create(p.token); s = p.token.subscribe(c.cancel); s.unsubscribe();
  p.cancel(new Error('Timeout'))\<close>
  removes the factory's link together with its own subscription: the parent is canceled
  and the child is not.
\<close>

theorem C5_counterexample:
  "fst (subscribe 1 (CancelFn 2) (run_ops [Create [], Create [1]] module_init)) =
     Returns (ListenerSubscription 1 (CancelFn 2)) \<and>
   isCanceled 1
     (run_ops [Create [], Create [1], Subscribe 1 (CancelFn 2),
               Unsubscribe (ListenerSubscription 1 (CancelFn 2)),
               Cancel 1 [ErrorV (Caller 0) ''Timeout'']] module_init) \<and>
   \<not> isCanceled 2
     (run_ops [Create [], Create [1], Subscribe 1 (CancelFn 2),
               Unsubscribe (ListenerSubscription 1 (CancelFn 2)),
               Cancel 1 [ErrorV (Caller 0) ''Timeout'']] module_init)"
  by (simp add: module_init_eval createCancelSource_def subscribe.simps cancel.simps
      lookup_def store_def Let_def reason_or_default_def isCanceled_def strict_neq_def)

text \<open>
  Claim C5, amended. Let \<^verbatim>\<open>create(...parents)\<close> be called with existing tokens; the child
  is the source at the next free address.
  \<^item> The call returns the pair of the child's token and \<^verbatim>\<open>cancel\<close>.
  \<^item> If some parent is already canceled, the child is canceled when the call returns,
    with the reason of the first canceled parent in argument order.
  \<^item> If no parent is canceled, the child is returned not canceled and its \<^verbatim>\<open>cancel\<close> has
    been appended to the listeners of each parent (once per occurrence).
  \<^item> In any world in which a parent \<open>q\<close> still has the \<^verbatim>\<open>cancel\<close> of a child \<open>c\<close> among its
    listeners and neither has been canceled, \<^verbatim>\<open>cancel\<close> of \<open>q\<close> returns with \<open>c\<close> canceled; the
    child's reason is the parent's committed reason whenever the child is still not
    canceled at the moment the parent's batch reaches it (a listener earlier in the
    batch may have canceled the child itself, or through another parent).
  \<^item> In particular, canceling a parent right after \<^verbatim>\<open>create\<close> cancels the child, with
    the parent's committed reason if the parent had no earlier listeners.
  \<^item> After \<^verbatim>\<open>create\<close>, and after any later operations none of which unsubscribes the
    child's \<^verbatim>\<open>cancel\<close> (neither directly nor in the code of a listener), the child is
    canceled whenever one of its parents is. This is for parents that are in a state the
    module produces (\<open>callback\<close> set exactly when there is no reason) and a world whose
    listeners do not already contain such an \<^verbatim>\<open>unsubscribe\<close>.
\<close>

theorem C5_child_canceled_with_linked_parent:
  assumes "\<forall>x \<in> set parents. x < length (pairs w)"
  shows "fst (createCancelSource parents w) =
           Returns (length (pairs w), CancelFn (length (pairs w))) \<and>
         (\<forall>ps1 q ps2 dq.
            parents = ps1 @ q # ps2 \<and> (\<forall>x \<in> set ps1. \<not> isCanceled x w) \<and>
            lookup w q = Some dq \<and> truthy (reason dq) \<longrightarrow>
              isCanceled (length (pairs w)) (snd (createCancelSource parents w)) \<and>
              throwIfCanceled (length (pairs w)) (snd (createCancelSource parents w)) =
                Throws (reason dq)) \<and>
         ((\<forall>x \<in> set parents. \<not> isCanceled x w) \<longrightarrow>
            lookup (snd (createCancelSource parents w)) (length (pairs w)) =
              Some \<lparr>reason = Null, listeners = [], callback = True\<rparr> \<and>
            (\<forall>q dq. lookup w q = Some dq \<longrightarrow>
               lookup (snd (createCancelSource parents w)) q =
                 Some (dq\<lparr>listeners := listeners dq @
                          replicate (count_list parents q) (CancelFn (length (pairs w)))\<rparr>))) \<and>
         (\<forall>w2 c q dq dc before after args.
            lookup w2 q = Some dq \<and> callback dq \<and> listeners dq = before @ CancelFn c # after \<and>
            lookup w2 c = Some dc \<and> callback dc \<longrightarrow>
              isCanceled c (snd (cancel q args w2)) \<and>
              (\<forall>d1. lookup (snd (forEach_invokeListener (ByCancel q)
                               (reason_or_default q (arg0 args)) before
                               (store q (dq\<lparr>callback := False,
                                           reason := reason_or_default q (arg0 args)\<rparr>) w2))) c
                       = Some d1 \<and> callback d1 \<longrightarrow>
                    throwIfCanceled c (snd (cancel q args w2)) =
                      Throws (reason_or_default q (arg0 args)))) \<and>
         (\<forall>q dq args.
            (\<forall>x \<in> set parents. \<not> isCanceled x w) \<and> q \<in> set parents \<and>
            lookup w q = Some dq \<and> callback dq \<longrightarrow>
              isCanceled (length (pairs w))
                (snd (cancel q args (snd (createCancelSource parents w)))) \<and>
              (listeners dq = [] \<longrightarrow>
                 throwIfCanceled (length (pairs w))
                   (snd (cancel q args (snd (createCancelSource parents w)))) =
                   Throws (reason_or_default q (arg0 args)))) \<and>
         (\<forall>later q.
            (\<forall>x \<in> set parents. \<forall>d. lookup w x = Some d \<longrightarrow>
               callback d = (\<not> truthy (reason d))) \<and>
            unsubscribe_free (CancelFn (length (pairs w))) w \<and>
            (\<forall>x \<in> set later. \<not> op_unsubscribes (CancelFn (length (pairs w))) x) \<and>
            q \<in> set parents \<and>
            isCanceled q (run_ops later (snd (createCancelSource parents w))) \<longrightarrow>
              isCanceled (length (pairs w))
                (run_ops later (snd (createCancelSource parents w))))"
proof -
  let ?c = "length (pairs w)"
  let ?w' = "snd (createCancelSource parents w)"
  let ?fresh = "\<lparr>reason = Null, listeners = [], callback = True\<rparr>"
  have born: "isCanceled ?c ?w' \<and> throwIfCanceled ?c ?w' = Throws (reason dq)"
    if "parents = ps1 @ q # ps2" "\<forall>x \<in> set ps1. \<not> isCanceled x w"
      "lookup w q = Some dq" "truthy (reason dq)" for ps1 q ps2 dq
    using born_canceled[OF assms[unfolded that(1)] that(2,3,4)] that(4)
    by (auto simp: that(1) isCanceled_def throwIfCanceled_def)
  have casc: "isCanceled c (snd (cancel q args w2)) \<and>
      (\<forall>d1. lookup (snd (forEach_invokeListener (ByCancel q) (reason_or_default q (arg0 args)) before
                 (store q (dq\<lparr>callback := False, reason := reason_or_default q (arg0 args)\<rparr>) w2))) c
               = Some d1 \<and> callback d1 \<longrightarrow>
             throwIfCanceled c (snd (cancel q args w2)) = Throws (reason_or_default q (arg0 args)))"
    if "lookup w2 q = Some dq" "callback dq" "listeners dq = before @ CancelFn c # after"
      "lookup w2 c = Some dc" "callback dc" for w2 c q dq dc before after args
    using cascade[OF that, of args]
    by (auto simp: isCanceled_def throwIfCanceled_def)
  have e2e: "isCanceled ?c (snd (cancel q args ?w')) \<and>
      (listeners dq = [] \<longrightarrow>
         throwIfCanceled ?c (snd (cancel q args ?w')) = Throws (reason_or_default q (arg0 args)))"
    if pend: "\<forall>x \<in> set parents. \<not> isCanceled x w" and q: "q \<in> set parents"
      "lookup w q = Some dq" "callback dq" for q dq args
  proof -
    let ?r = "reason_or_default q (arg0 args)"
    let ?k = "count_list parents q"
    let ?dq = "dq\<lparr>listeners := listeners dq @ replicate ?k (CancelFn ?c)\<rparr>"
    have lq: "lookup ?w' q = Some ?dq"
      using wired(2)[OF assms pend q(2)] .
    have lc: "lookup ?w' ?c = Some ?fresh"
      using wired(1)[OF assms pend] .
    obtain k where k: "?k = Suc k"
      using count_list_pos[OF q(1)] by (cases ?k) auto
    have ls: "listeners ?dq = listeners dq @ CancelFn ?c # replicate k (CancelFn ?c)"
      by (simp add: k)
    have cq: "callback ?dq"
      using q(3) by simp
    have cf: "callback ?fresh"
      by simp
    note c = casc[OF lq cq ls lc cf, of args]
    have "q \<noteq> ?c"
      using assms q(1) by auto
    then have "lookup (store q (?dq\<lparr>callback := False, reason := ?r\<rparr>) ?w') ?c = Some ?fresh"
      using lc by (simp add: lookup_store_other)
    then have "throwIfCanceled ?c (snd (cancel q args ?w')) = Throws ?r"
      if "listeners dq = []"
      using c that by simp
    with c show ?thesis by blast
  qed
  have inv: "isCanceled ?c (run_ops later ?w')"
    if wf: "\<forall>x \<in> set parents. \<forall>d. lookup w x = Some d \<longrightarrow> callback d = (\<not> truthy (reason d))"
      and free: "unsubscribe_free (CancelFn ?c) w"
      and later: "\<forall>x \<in> set later. \<not> op_unsubscribes (CancelFn ?c) x"
      and q: "q \<in> set parents" "isCanceled q (run_ops later ?w')" for later q
  proof -
    have "unsubscribe_free (CancelFn ?c) ?w'"
      using createCancelSource_cascades[OF free] by blast
    from run_ops_cascades[OF this later createCancelSource_links[OF assms wf q(1)]] q(2)
    show ?thesis
      by (rule cascades_canceled)
  qed
  have w3: "(\<forall>x \<in> set parents. \<not> isCanceled x w) \<longrightarrow>
            lookup ?w' ?c = Some ?fresh \<and>
            (\<forall>q dq. lookup w q = Some dq \<longrightarrow>
               lookup ?w' q =
                 Some (dq\<lparr>listeners := listeners dq @
                          replicate (count_list parents q) (CancelFn ?c)\<rparr>))"
    using wired[OF assms] by blast
  show ?thesis
    apply (intro conjI)
         apply (rule createCancelSource_returns)
        apply (intro allI impI, elim conjE, erule (3) born)
       apply (rule w3)
      apply (intro allI impI, elim conjE, erule (4) casc)
     apply (intro allI impI, elim conjE, erule (3) e2e)
    apply (intro allI impI, elim conjE, erule (4) inv)
    done
qed

theorem C5_witness:
  "throwIfCanceled 2 (snd (cancel 1 [ErrorV (Caller 0) ''Timeout''] (snd (createCancelSource [1] fresh_pair)))) =
     Throws (ErrorV (Caller 0) ''Timeout'') \<and>
   isCanceled 2 (snd (createCancelSource [1] canceled_pair)) \<and>
   throwIfCanceled 2 (snd (createCancelSource [1] canceled_pair)) = Throws (ErrorV (Caller 0) ''Timeout'') \<and>
   isCanceled 2 (run_ops [Subscribe 2 (UserFn 1 []), Cancel 1 []]
     (snd (createCancelSource [1] fresh_pair)))"
proof -
  let ?d = "\<lparr>reason = Null, listeners = [], callback = True\<rparr>"
  let ?dc = "\<lparr>reason = ErrorV (Caller 0) ''Timeout'', listeners = [], callback = False\<rparr>"
  let ?later = "[Subscribe 2 (UserFn 1 []), Cancel 1 []]"
  have v1: "\<forall>x \<in> set [1]. x < length (pairs fresh_pair)"
    by (simp add: fresh_pair_eval)
  have v2: "\<forall>x \<in> set [1]. x < length (pairs canceled_pair)"
    by (simp add: canceled_pair_eval)
  have len: "length (pairs fresh_pair) = 2" "length (pairs canceled_pair) = 2"
    by (simp_all add: fresh_pair_eval canceled_pair_eval)
  have a: "(\<forall>x \<in> set [1]. \<not> isCanceled x fresh_pair) \<and> 1 \<in> set [1::nat] \<and>
      lookup fresh_pair 1 = Some ?d \<and> callback ?d"
    by (simp add: fresh_pair_eval lookup_def isCanceled_def)
  have b: "[1::nat] = [] @ 1 # [] \<and> (\<forall>x \<in> set []. \<not> isCanceled x canceled_pair) \<and>
      lookup canceled_pair 1 = Some ?dc \<and> truthy (reason ?dc)"
    by (simp add: canceled_pair_eval lookup_def)
  have c: "(\<forall>x \<in> set [1]. \<forall>d. lookup fresh_pair x = Some d \<longrightarrow>
               callback d = (\<not> truthy (reason d))) \<and>
      unsubscribe_free (CancelFn (length (pairs fresh_pair))) fresh_pair \<and>
      (\<forall>x \<in> set ?later. \<not> op_unsubscribes (CancelFn (length (pairs fresh_pair))) x) \<and>
      1 \<in> set [1::nat] \<and>
      isCanceled 1 (run_ops ?later (snd (createCancelSource [1] fresh_pair)))"
    using child_later_eval
    by (simp add: fresh_pair_eval lookup_def unsubscribe_free_def)
  note e = C5_child_canceled_with_linked_parent[OF v1, THEN conjunct2, THEN conjunct2,
      THEN conjunct2, THEN conjunct2, THEN conjunct1, rule_format, OF a, of "[ErrorV (Caller 0) ''Timeout'']"]
  note f = C5_child_canceled_with_linked_parent[OF v2, THEN conjunct2, THEN conjunct1,
      rule_format, OF b]
  note g = C5_child_canceled_with_linked_parent[OF v1, THEN conjunct2, THEN conjunct2,
      THEN conjunct2, THEN conjunct2, THEN conjunct2, rule_format, OF c]
  from e have "throwIfCanceled (length (pairs fresh_pair))
      (snd (cancel 1 [ErrorV (Caller 0) ''Timeout''] (snd (createCancelSource [1] fresh_pair)))) =
      Throws (reason_or_default 1 (arg0 [ErrorV (Caller 0) ''Timeout'']))"
    by simp
  moreover from f
  have "isCanceled (length (pairs canceled_pair)) (snd (createCancelSource [1] canceled_pair)) \<and>
      throwIfCanceled (length (pairs canceled_pair)) (snd (createCancelSource [1] canceled_pair)) =
        Throws (reason ?dc)" .
  ultimately show ?thesis
    using g by (simp add: len reason_or_default_def)
qed

subsection \<open>C6: a listener that throws\<close>

lemma invokeListener_defers:
  assumes "fst (call l [r] w) = Throws e"
  shows "\<exists>ts. timers (snd (invokeListener og r l w)) = timers w @ ts @ [e]"
proof -
  obtain ts where "timers (snd (call l [r] w)) = timers w @ ts"
    using exec_timers(2) by blast
  then show ?thesis
    by (simp add: invokeListener_throws[OF assms] setTimeout_throw_def record_call_def)
qed

lemma forEach_defers:
  assumes "fst (call l [r] (snd (forEach_invokeListener og r before w))) = Throws e"
  shows "\<exists>ts. timers (snd (forEach_invokeListener og r (before @ l # after) w)) = timers w @ ts \<and>
           e \<in> set ts"
proof -
  let ?w1 = "snd (forEach_invokeListener og r before w)"
  let ?w2 = "snd (invokeListener og r l ?w1)"
  obtain ts1 where ts1: "timers ?w1 = timers w @ ts1"
    using exec_timers(4) by blast
  obtain ts2 where ts2: "timers ?w2 = timers ?w1 @ ts2 @ [e]"
    using invokeListener_defers[OF assms] by blast
  obtain ts3 where ts3: "timers (snd (forEach_invokeListener og r after ?w2)) = timers ?w2 @ ts3"
    using exec_timers(4) by blast
  show ?thesis
    by (rule exI[where x="ts1 @ ts2 @ [e] @ ts3"]) (simp add: forEach_append ts1 ts2 ts3)
qed




subsection \<open>C7: a listener that is not a function\<close>

text \<open>
  Claim C7 says that a non-callable listener never leads to an error, neither at once nor
  later. The first half holds and the second does not: line 35 throws a \<^verbatim>\<open>TypeError\<close>, the
  \<^verbatim>\<open>catch\<close> of line 37 defers it like any other error, and the next tick throws it. The
  counterexample is the two tests named "must not throw when a listener is not a
  function", each followed by one tick.
\<close>

theorem C7_counterexample:
  "fst (subscribe 1 (ObjV 0)
          (snd (cancel 1 [ErrorV (Caller 0) ''Timeout''] (snd (createCancelSource [] module_init))))) =
     Returns NoopSubscription \<and>
   fst (tick (snd (subscribe 1 (ObjV 0)
          (snd (cancel 1 [ErrorV (Caller 0) ''Timeout''] (snd (createCancelSource [] module_init))))))) =
     Throws (TypeErrorV 0 ''listener is not a function'') \<and>
   fst (cancel 1 [] (snd (subscribe 1 (ObjV 0) (snd (createCancelSource [] module_init))))) =
     Returns () \<and>
   fst (tick (snd (cancel 1 []
          (snd (subscribe 1 (ObjV 0) (snd (createCancelSource [] module_init))))))) =
     Throws (TypeErrorV 0 ''listener is not a function'')"
  by (simp add: module_init_eval createCancelSource_def cancel.simps subscribe.simps
      invokeListener.simps call.simps lookup_def store_def Let_def reason_or_default_def
      setTimeout_throw_def record_call_def tick_def)

text \<open>
  Claim C7, amended. For a listener that is not a function, \<^verbatim>\<open>subscribe\<close> returns normally
  in both states of the token. On a token that is not canceled it only appends the
  listener; on a canceled token it records the failed call and queues one \<^verbatim>\<open>TypeError\<close>.
  Every attempt to call such a listener (here, and in the batch of a later \<^verbatim>\<open>cancel\<close>)
  returns normally and queues exactly one \<^verbatim>\<open>TypeError\<close> for a later tick.
\<close>

theorem C7_non_callable_listener_defers_type_error:
  assumes "lookup w p = Some d" and "\<not> is_function l"
  shows "(\<exists>s. fst (subscribe p l w) = Returns s) \<and>
         (\<not> truthy (reason d) \<longrightarrow>
            subscribe p l w =
              (Returns (ListenerSubscription p l),
               store p (d\<lparr>listeners := listeners d @ [l]\<rparr>) w)) \<and>
         (truthy (reason d) \<longrightarrow>
            subscribe p l w =
              (Returns NoopSubscription,
               w\<lparr>calls := calls w @ [Invoke (BySubscribe p) l (reason d) []],
                 timers := timers w @ [TypeErrorV (type_errors w) ''listener is not a function''],
                 type_errors := Suc (type_errors w)\<rparr>)) \<and>
         (\<not> truthy (reason d) \<and> callback d \<longrightarrow>
            fst (cancel p args (snd (subscribe p l w))) = Returns () \<and>
            (\<exists>ts k. timers (snd (cancel p args (snd (subscribe p l w)))) = timers w @ ts \<and>
                    type_errors w \<le> k \<and>
                    TypeErrorV k ''listener is not a function'' \<in> set ts)) \<and>
         (\<forall>og r w2.
            invokeListener og r l w2 =
              (Returns (),
               w2\<lparr>calls := calls w2 @ [Invoke og l r []],
                  timers := timers w2 @ [TypeErrorV (type_errors w2) ''listener is not a function''],
                  type_errors := Suc (type_errors w2)\<rparr>))"
proof -
  have pending: "\<exists>ts k. timers (snd (cancel p args (snd (subscribe p l w)))) = timers w @ ts \<and>
      type_errors w \<le> k \<and> TypeErrorV k ''listener is not a function'' \<in> set ts"
    if f: "\<not> truthy (reason d)" and c: "callback d"
  proof -
    let ?d1 = "d\<lparr>listeners := listeners d @ [l]\<rparr>"
    let ?r = "reason_or_default p (arg0 args)"
    let ?w0 = "store p (?d1\<lparr>callback := False, reason := ?r\<rparr>) (store p ?d1 w)"
    have s: "subscribe p l w = (Returns (ListenerSubscription p l), store p ?d1 w)"
      using assms(1) f by (rule subscribe_pending)
    have l1: "lookup (store p ?d1 w) p = Some ?d1"
      using assms(1) by (rule lookup_store_same)
    have c1: "callback ?d1"
      using c by simp
    let ?w1 = "snd (forEach_invokeListener (ByCancel p) ?r (listeners d) ?w0)"
    have "progresses ?w0 ?w1"
      by (rule exec_progresses)
    then have k: "type_errors w \<le> type_errors ?w1"
      by (simp add: progresses_def store_def)
    have "fst (call l [?r] ?w1) = Throws (TypeErrorV (type_errors ?w1) ''listener is not a function'')"
      using assms(2) by (simp add: call_not_function)
    from forEach_defers[OF this, of "[]"] k show ?thesis
      by (auto simp: s cancel_live[OF l1 c1])
  qed
  show ?thesis
    using assms pending
    by (simp add: subscribe_returns subscribe_pending subscribe_committed cancel_returns
        invokeListener_not_function)
qed

theorem C7_witness:
  "subscribe 1 (ObjV 0) fresh_pair =
     (Returns (ListenerSubscription 1 (ObjV 0)),
      store 1 \<lparr>reason = Null, listeners = [ObjV 0], callback = True\<rparr> fresh_pair) \<and>
   invokeListener (ByCancel 1) (ErrorV (Caller 0) ''Timeout'') (ObjV 0) fresh_pair =
     (Returns (),
      fresh_pair\<lparr>calls := [Invoke (ByCancel 1) (ObjV 0) (ErrorV (Caller 0) ''Timeout'') []],
                 timers := [TypeErrorV 0 ''listener is not a function''],
                 type_errors := 1\<rparr>)"
proof -
  let ?d = "\<lparr>reason = Null, listeners = [], callback = True\<rparr>"
  have h: "lookup fresh_pair 1 = Some ?d" "\<not> is_function (ObjV 0)"
    by (simp_all add: fresh_pair_eval lookup_def)
  from C7_non_callable_listener_defers_type_error[OF h, of "[]"]
  have "\<not> truthy (reason ?d) \<longrightarrow>
      subscribe 1 (ObjV 0) fresh_pair =
        (Returns (ListenerSubscription 1 (ObjV 0)),
         store 1 (?d\<lparr>listeners := listeners ?d @ [ObjV 0]\<rparr>) fresh_pair)"
    and "\<forall>og r w2. invokeListener og r (ObjV 0) w2 =
      (Returns (), w2\<lparr>calls := calls w2 @ [Invoke og (ObjV 0) r []],
         timers := timers w2 @ [TypeErrorV (type_errors w2) ''listener is not a function''],
         type_errors := Suc (type_errors w2)\<rparr>)"
    by blast+
  then show ?thesis
    by (simp add: fresh_pair_eval)
qed

subsection \<open>C8: the empty token\<close>

lemma never_cancelable_setTimeout [simp]:
  "never_cancelable e (setTimeout_throw x w) = never_cancelable e w"
  by (simp add: never_cancelable_def setTimeout_throw_def lookup_def)

lemma never_cancelable_type_errors [simp]:
  "never_cancelable e (w\<lparr>type_errors := n\<rparr>) = never_cancelable e w"
  by (simp add: never_cancelable_def)

lemma never_cancelable_record_call:
  assumes "never_cancelable e w" "never_cancelable e w'" "origin_source og \<noteq> e"
  shows "never_cancelable e (record_call og l r w w')"
proof -
  have "\<not> notified_by e ev" if "ev \<in> set (drop (length (calls w)) (calls w'))" for ev
    using assms(2) in_set_dropD[OF that] by (simp add: never_cancelable_def)
  then show ?thesis
    using assms by (auto simp: never_cancelable_def record_call_def lookup_def split: if_splits)
qed

lemma never_cancelable_store:
  assumes "never_cancelable e w" "lookup w p = Some d"
    and "p = e \<longrightarrow> callback d' \<and> reason d' = Null"
    and "\<forall>l \<in> set (listeners d'). \<not> holds_cancel e l"
  shows "never_cancelable e (store p d' w)"
proof -
  have "\<exists>d. lookup (store p d' w) e = Some d \<and> callback d \<and> reason d = Null"
  proof (cases "p = e")
    case True
    then show ?thesis
      using assms(2,3) lookup_store_same[OF assms(2), of d'] by simp
  next
    case False
    then show ?thesis
      using assms(1) by (simp add: lookup_store_other never_cancelable_def)
  qed
  moreover have "\<forall>l \<in> set (listeners x). \<not> holds_cancel e l" if "x \<in> set (pairs (store p d' w))" for x
  proof -
    have "x \<in> insert d' (set (pairs w))"
      using that set_update_subset_insert[of "pairs w" p d'] by (auto simp: store_def)
    then show ?thesis
      using assms(1,4) by (auto simp: never_cancelable_def)
  qed
  ultimately show ?thesis
    using assms(1) by (simp add: never_cancelable_def)
qed

lemma never_cancelable_listeners:
  "never_cancelable e w \<Longrightarrow> lookup w p = Some d \<Longrightarrow> l \<in> set (listeners d) \<Longrightarrow>
     \<not> holds_cancel e l"
  by (auto simp: never_cancelable_def lookup_def split: if_splits)

lemma never_cancelable_reason:
  "never_cancelable e w \<Longrightarrow> lookup w e = Some d \<Longrightarrow> callback d \<and> reason d = Null"
  by (auto simp: never_cancelable_def)

lemma never_cancelable_unsubscribe:
  "never_cancelable e w \<Longrightarrow> never_cancelable e (unsubscribe s w)"
proof (cases s)
  case NoopSubscription
  then show "never_cancelable e w \<Longrightarrow> ?thesis" by simp
next
  case (ListenerSubscription p l)
  assume nc: "never_cancelable e w"
  show ?thesis
  proof (cases "lookup w p")
    case None
    with nc ListenerSubscription show ?thesis by simp
  next
    case (Some d)
    have "never_cancelable e
        (store p (d\<lparr>listeners := filter (\<lambda>el. strict_neq el l) (listeners d)\<rparr>) w)"
      using never_cancelable_listeners[OF nc Some] never_cancelable_reason[OF nc]  Some
      by (intro never_cancelable_store[OF nc Some]) auto
    with Some ListenerSubscription show ?thesis by simp
  qed
qed

lemma exec_never_cancelable:
  "never_cancelable e w \<Longrightarrow> \<not> holds_cancel e l \<Longrightarrow> origin_source og \<noteq> e \<Longrightarrow>
     never_cancelable e (snd (invokeListener og r l w))"
  "never_cancelable e w \<Longrightarrow> \<not> holds_cancel e f \<Longrightarrow> never_cancelable e (snd (call f args w))"
  "never_cancelable e w \<Longrightarrow> p \<noteq> e \<Longrightarrow> never_cancelable e (snd (cancel p args w))"
  "never_cancelable e w \<Longrightarrow> origin_source og \<noteq> e \<Longrightarrow> \<forall>x \<in> set ls. \<not> holds_cancel e x \<Longrightarrow>
     never_cancelable e (snd (forEach_invokeListener og r ls w))"
  "never_cancelable e w \<Longrightarrow> \<not> holds_cancel e l \<Longrightarrow> never_cancelable e (snd (subscribe p l w))"
  "never_cancelable e w \<Longrightarrow> \<forall>a \<in> set body. \<not> action_holds_cancel e a \<Longrightarrow>
     never_cancelable e (snd (run_body body w))"
proof (induct og r l w and f args w and p args w and og r ls w and p l w and body w
    rule: invokeListener_call_cancel_forEach_invokeListener_subscribe_run_body.induct)
  case (1 og r listener w)
  have "never_cancelable e (snd (call listener [r] w))"
    using 1 by simp
  then have "never_cancelable e (record_call og listener r w (snd (call listener [r] w)))"
    using 1 by (intro never_cancelable_record_call) simp_all
  then show ?case
    by (cases "call listener [r] w") (auto simp: invokeListener.simps split: outcome.splits)
next
  case (2 f args w)
  then show ?case by (cases f) (auto simp: call.simps)
next
  case (3 p args w)
  show ?case
  proof (cases "lookup w p")
    case None
    with 3 show ?thesis by (simp add: cancel.simps)
  next
    case (Some d)
    show ?thesis
    proof (cases "callback d")
      case False
      with 3 Some show ?thesis by (simp add: cancel.simps)
    next
      case True
      let ?r = "reason_or_default p (arg0 args)"
      let ?w = "store p (d\<lparr>callback := False, reason := ?r\<rparr>) w"
      have clean: "\<forall>x \<in> set (listeners d). \<not> holds_cancel e x"
        using never_cancelable_listeners[OF 3(2) Some] by blast
      have "never_cancelable e ?w"
        using 3(3) clean by (intro never_cancelable_store[OF 3(2) Some]) auto
      from 3(1)[OF Some True refl refl this _ clean] 3(3) show ?thesis
        using Some True by (simp add: cancel.simps Let_def)
    qed
  qed
next
  case (4 og r w)
  then show ?case by simp
next
  case (5 og r listener rest w)
  have a: "never_cancelable e (snd (invokeListener og r listener w))"
    using 5 by simp
  show ?case
    using 5(2)[of "Returns ()" "snd (invokeListener og r listener w)" "()", OF _ _ a]
      invokeListener_eq_snd[of og r listener w] 5(4,5) by simp
next
  case (6 p listener w)
  show ?case
  proof (cases "lookup w p")
    case None
    with 6 show ?thesis by (simp add: subscribe.simps)
  next
    case (Some d)
    show ?thesis
    proof (cases "truthy (reason d)")
      case True
      have "p \<noteq> e"
        using never_cancelable_reason[OF 6(2), of d] Some True by auto
      with 6(1)[OF Some True 6(2,3)] Some True show ?thesis
        by (simp add: subscribe_committed)
    next
      case False
      have "never_cancelable e (store p (d\<lparr>listeners := listeners d @ [listener]\<rparr>) w)"
        using never_cancelable_listeners[OF 6(2) Some] never_cancelable_reason[OF 6(2)] Some 6(3)
        by (intro never_cancelable_store[OF 6(2) Some]) auto
      with Some False show ?thesis
        by (simp add: subscribe_pending)
    qed
  qed
next
  case (7 w)
  then show ?case by simp
next
  case (8 error rest w)
  then show ?case by simp
next
  case (9 p args rest w)
  have "never_cancelable e (snd (cancel p args w))"
    using 9 by simp
  with 9(2)[of "fst (cancel p args w)" "snd (cancel p args w)"] 9(4) show ?case
    by (cases "cancel p args w") (auto split: outcome.splits)
next
  case (10 p listener rest w)
  have "never_cancelable e (snd (subscribe p listener w))"
    using 10 by simp
  with 10(2)[of "fst (subscribe p listener w)" "snd (subscribe p listener w)"] 10(4) show ?case
    by (cases "subscribe p listener w") (auto split: outcome.splits)
next
  case (11 p listener rest w)
  then show ?case
    using never_cancelable_unsubscribe[of e w "ListenerSubscription p listener"]
    by (simp del: unsubscribe.simps)
next
  case (12 p rest w)
  then show ?case by (auto split: outcome.splits)
qed

lemma map_subscribe_never_cancelable:
  "never_cancelable e w \<Longrightarrow> \<not> holds_cancel e l \<Longrightarrow>
     never_cancelable e (snd (map_subscribe ps l w))"
proof (induction ps arbitrary: w)
  case Nil
  then show ?case by simp
next
  case (Cons q ps)
  have a: "never_cancelable e (snd (subscribe q l w))"
    using Cons.prems by (rule exec_never_cancelable(5))
  from Cons.IH[OF this Cons.prems(2)] a show ?case
    by (cases "subscribe q l w") (auto split: outcome.splits prod.splits)
qed

lemma never_cancelable_alloc:
  assumes "never_cancelable e w"
  shows "never_cancelable e
           (w\<lparr>pairs := pairs w @ [\<lparr>reason = Null, listeners = [], callback = True\<rparr>]\<rparr>)"
  using assms by (auto simp: never_cancelable_def lookup_def nth_append split: if_splits)

lemma never_cancelable_valid: "never_cancelable e w \<Longrightarrow> e < length (pairs w)"
  by (auto simp: never_cancelable_def lookup_def split: if_splits)

lemma createCancelSource_never_cancelable:
  assumes "never_cancelable e w"
  shows "never_cancelable e (snd (createCancelSource ps w))"
proof -
  have "\<not> holds_cancel e (CancelFn (length (pairs w)))"
    using never_cancelable_valid[OF assms] by simp
  from map_subscribe_never_cancelable[OF never_cancelable_alloc[OF assms] this]
  show ?thesis
    by (simp add: createCancelSource_snd)
qed

lemma tick_never_cancelable:
  "never_cancelable e w \<Longrightarrow> never_cancelable e (snd (tick w))"
  by (auto simp: tick_def never_cancelable_def lookup_def split: list.splits if_splits)

lemma step_never_cancelable:
  assumes "never_cancelable e w" "\<not> op_holds_cancel e x"
  shows "never_cancelable e (step x w)"
proof (cases x)
  case (Create ps)
  with assms show ?thesis by (simp add: createCancelSource_never_cancelable)
next
  case (Cancel p args)
  with assms show ?thesis by (simp add: exec_never_cancelable(3))
next
  case (Subscribe p l)
  with assms show ?thesis by (simp add: exec_never_cancelable(5))
next
  case (Unsubscribe s)
  with assms show ?thesis by (simp add: never_cancelable_unsubscribe del: unsubscribe.simps)
next
  case (IsCanceled p)
  with assms show ?thesis by simp
next
  case (ThrowIfCanceled p)
  with assms show ?thesis by simp
next
  case Tick
  with assms show ?thesis by (simp add: tick_never_cancelable)
qed

lemma run_ops_never_cancelable:
  "never_cancelable e w \<Longrightarrow> \<forall>x \<in> set xs. \<not> op_holds_cancel e x \<Longrightarrow>
     never_cancelable e (run_ops xs w)"
proof (induction xs arbitrary: w)
  case Nil
  then show ?case by simp
next
  case (Cons x xs)
  have "never_cancelable e (step x w)"
    using Cons.prems by (intro step_never_cancelable) simp_all
  from Cons.IH[OF this] Cons.prems(2) show ?case by simp
qed

lemma module_init_never_cancelable: "never_cancelable emptyToken module_init"
  by (simp add: never_cancelable_def module_init_eval emptyToken_def lookup_def)

text \<open>
  Claim C8. Start from the world the module's own initialisation leaves and run any
  sequence of public operations in which the \<^verbatim>\<open>cancel\<close> of the source behind \<^verbatim>\<open>emptyToken\<close>
  does not occur (line 119 exports the token only). Afterwards \<^verbatim>\<open>isCanceled()\<close> of the
  empty token is false, its \<^verbatim>\<open>throwIfCanceled()\<close> returns, its reason is still \<^verbatim>\<open>null\<close>, no
  listener call anywhere in the trace was made on its behalf, and \<^verbatim>\<open>subscribe\<close> on it
  takes the "not yet canceled" branch: it returns a subscription and calls nothing.
\<close>

theorem C8_empty_token_never_canceled:
  assumes "\<forall>x \<in> set xs. \<not> op_holds_cancel emptyToken x"
  shows "\<not> isCanceled emptyToken (run_ops xs module_init) \<and>
         throwIfCanceled emptyToken (run_ops xs module_init) = Returns () \<and>
         (\<exists>d. lookup (run_ops xs module_init) emptyToken = Some d \<and> reason d = Null \<and>
              callback d) \<and>
         (\<forall>ev \<in> set (calls (run_ops xs module_init)). \<not> notified_by emptyToken ev) \<and>
         (\<forall>l. fst (subscribe emptyToken l (run_ops xs module_init)) =
                Returns (ListenerSubscription emptyToken l) \<and>
              calls (snd (subscribe emptyToken l (run_ops xs module_init))) =
                calls (run_ops xs module_init))"
proof -
  let ?w = "run_ops xs module_init"
  have nc: "never_cancelable emptyToken ?w"
    using module_init_never_cancelable assms by (rule run_ops_never_cancelable)
  then obtain d where d: "lookup ?w emptyToken = Some d" "callback d" "reason d = Null"
    by (auto simp: never_cancelable_def)
  have "subscribe emptyToken l ?w =
      (Returns (ListenerSubscription emptyToken l),
       store emptyToken (d\<lparr>listeners := listeners d @ [l]\<rparr>) ?w)" for l
    using d by (intro subscribe_pending) simp_all
  then show ?thesis
    using nc d by (simp add: never_cancelable_def isCanceled_def throwIfCanceled_def)
qed

theorem C8_witness:
  "\<not> isCanceled emptyToken
      (run_ops [Subscribe emptyToken (UserFn 1 []), Create [emptyToken], Cancel 1 [], Tick]
         module_init) \<and>
   throwIfCanceled emptyToken
      (run_ops [Subscribe emptyToken (UserFn 1 []), Create [emptyToken], Cancel 1 [], Tick]
         module_init) = Returns () \<and>
   lookup (run_ops [Subscribe emptyToken (UserFn 1 []), Create [emptyToken], Cancel 1 [], Tick]
         module_init) emptyToken =
     Some \<lparr>reason = Null, listeners = [UserFn 1 [], CancelFn 1], callback = True\<rparr>"
proof -
  have h: "\<forall>x \<in> set [Subscribe emptyToken (UserFn 1 []), Create [emptyToken], Cancel 1 [], Tick].
      \<not> op_holds_cancel emptyToken x"
    by (simp add: emptyToken_def)
  have "lookup (run_ops [Subscribe emptyToken (UserFn 1 []), Create [emptyToken], Cancel 1 [], Tick]
         module_init) emptyToken =
     Some \<lparr>reason = Null, listeners = [UserFn 1 [], CancelFn 1], callback = True\<rparr>"
    by (simp add: emptyToken_def module_init_eval subscribe.simps cancel.simps
        createCancelSource_def lookup_def store_def tick_def Let_def reason_or_default_def)
  with C8_empty_token_never_canceled[OF h] show ?thesis
    by simp
qed

subsection \<open>C9: cancel called again during the notification\<close>

text \<open>
  Claim C9. During the batch of the first \<^verbatim>\<open>cancel(r)\<close> the \<open>callback\<close> of the source is
  already cleared and the reason committed, at every point between two listeners. In any
  world where the \<open>callback\<close> is cleared, a call of the same \<^verbatim>\<open>cancel\<close> changes nothing,
  whether a listener's code makes it directly or a parent's batch makes it through
  \<open>CancelFn p\<close>, and whatever else a listener does leaves the \<open>callback\<close> cleared and the
  reason as it is. So the first call ends with the reason it committed and has called
  the listeners of the batch in their order.
\<close>

theorem C9_reentrant_cancel_is_noop:
  assumes "lookup w p = Some d" and "callback d"
  shows "(\<forall>before after. listeners d = before @ after \<longrightarrow>
            (\<exists>d1. lookup (snd (forEach_invokeListener (ByCancel p)
                             (reason_or_default p (arg0 args)) before
                             (store p (d\<lparr>callback := False,
                                        reason := reason_or_default p (arg0 args)\<rparr>) w))) p = Some d1 \<and>
                   \<not> callback d1 \<and> reason d1 = reason_or_default p (arg0 args))) \<and>
         (\<forall>w1 d1. lookup w1 p = Some d1 \<and> \<not> callback d1 \<longrightarrow>
            (\<forall>args2 rest.
               cancel p args2 w1 = (Returns (), w1) \<and>
               run_body (CallCancel p args2 # rest) w1 = run_body rest w1) \<and>
            (\<forall>og r1.
               invokeListener og r1 (CancelFn p) w1 =
                 (Returns (), w1\<lparr>calls := calls w1 @ [Invoke og (CancelFn p) r1 []]\<rparr>)) \<and>
            (\<forall>og r1 x.
               \<exists>d2. lookup (snd (invokeListener og r1 x w1)) p = Some d2 \<and>
                    \<not> callback d2 \<and> reason d2 = reason d1)) \<and>
         (\<exists>d'. lookup (snd (cancel p args w)) p = Some d' \<and> \<not> callback d' \<and>
                reason d' = reason_or_default p (arg0 args)) \<and>
         (\<exists>evs. calls (snd (cancel p args w)) = calls w @ evs \<and>
                map invoked evs =
                  map (\<lambda>x. (ByCancel p, x, reason_or_default p (arg0 args))) (listeners d))"
proof -
  let ?r = "reason_or_default p (arg0 args)"
  let ?d0 = "d\<lparr>callback := False, reason := ?r\<rparr>"
  let ?w0 = "store p ?d0 w"
  have l0: "lookup ?w0 p = Some ?d0"
    using assms(1) by (rule lookup_store_same)
  have during: "\<exists>d1. lookup (snd (forEach_invokeListener (ByCancel p) ?r before ?w0)) p = Some d1 \<and>
      \<not> callback d1 \<and> reason d1 = ?r" for before
    using committed_stays[OF exec_advances(4) l0, of "ByCancel p" ?r before] by simp
  have nested: "(\<forall>args2 rest.
               cancel p args2 w1 = (Returns (), w1) \<and>
               run_body (CallCancel p args2 # rest) w1 = run_body rest w1) \<and>
            (\<forall>og r1.
               invokeListener og r1 (CancelFn p) w1 =
                 (Returns (), w1\<lparr>calls := calls w1 @ [Invoke og (CancelFn p) r1 []]\<rparr>)) \<and>
            (\<forall>og r1 x.
               \<exists>d2. lookup (snd (invokeListener og r1 x w1)) p = Some d2 \<and>
                    \<not> callback d2 \<and> reason d2 = reason d1)"
    if "lookup w1 p = Some d1" "\<not> callback d1" for w1 d1
    using that committed_stays[OF exec_advances(1) that]
    by (simp add: cancel_noop invokeListener_cancel_noop)
  show ?thesis
    using during nested cancel_commits[OF assms, of args] cancel_calls[OF assms, of args]
    by blast
qed

theorem C9_witness:
  "throwIfCanceled 2 (snd (cancel 2 [ErrorV (Caller 0) ''Timeout''] reentrant_listener)) =
     Throws (ErrorV (Caller 0) ''Timeout'') \<and>
   map invoked (calls (snd (cancel 2 [ErrorV (Caller 0) ''Timeout''] reentrant_listener))) =
     [(ByCancel 2, UserFn 1 [CallCancel 2 [StrV ''again''], CallCancel 1 [StrV ''parent'']],
         ErrorV (Caller 0) ''Timeout''),
      (ByCancel 2, UserFn 2 [], ErrorV (Caller 0) ''Timeout'')]"
proof -
  let ?d = "\<lparr>reason = Null,
         listeners = [UserFn 1 [CallCancel 2 [StrV ''again''], CallCancel 1 [StrV ''parent'']],
                      UserFn 2 []],
         callback = True\<rparr>"
  have h: "lookup reentrant_listener 2 = Some ?d" "callback ?d"
    by (simp_all add: reentrant_listener_eval lookup_def)
  from C9_reentrant_cancel_is_noop[OF h, of "[ErrorV (Caller 0) ''Timeout'']"]
  obtain d' evs where
    "lookup (snd (cancel 2 [ErrorV (Caller 0) ''Timeout''] reentrant_listener)) 2 = Some d'"
    "reason d' = reason_or_default 2 (arg0 [ErrorV (Caller 0) ''Timeout''])"
    "calls (snd (cancel 2 [ErrorV (Caller 0) ''Timeout''] reentrant_listener)) = calls reentrant_listener @ evs"
    "map invoked evs = map (\<lambda>x. (ByCancel 2, x, reason_or_default 2 (arg0 [ErrorV (Caller 0) ''Timeout''])))
       (listeners ?d)"
    by blast
  then show ?thesis
    by (simp add: reentrant_listener_eval reason_or_default_def throwIfCanceled_def)
qed

subsection \<open>C10: one unsubscribe removes every occurrence\<close>

text \<open>
  Claim C10. On a source that is not canceled, subscribing the same function \<open>l\<close> twice
  returns the same subscription twice and appends \<open>l\<close> twice. One \<^verbatim>\<open>unsubscribe()\<close> of
  it removes every occurrence of \<open>l\<close> (also those subscribed earlier), so the following
  \<^verbatim>\<open>cancel\<close> calls the other listeners and never \<open>l\<close>.
\<close>

theorem C10_unsubscribe_removes_every_occurrence:
  assumes "lookup w p = Some d" and "callback d" and "\<not> truthy (reason d)"
    and "is_function l"
  shows "fst (subscribe p l w) = Returns (ListenerSubscription p l) \<and>
         fst (subscribe p l (snd (subscribe p l w))) = Returns (ListenerSubscription p l) \<and>
         lookup (snd (subscribe p l (snd (subscribe p l w)))) p =
           Some (d\<lparr>listeners := listeners d @ [l, l]\<rparr>) \<and>
         lookup (unsubscribe (ListenerSubscription p l)
                   (snd (subscribe p l (snd (subscribe p l w))))) p =
           Some (d\<lparr>listeners := filter (\<lambda>el. el \<noteq> l) (listeners d)\<rparr>) \<and>
         (\<exists>evs.
            calls (snd (cancel p args (unsubscribe (ListenerSubscription p l)
                     (snd (subscribe p l (snd (subscribe p l w))))))) = calls w @ evs \<and>
            map invoked evs =
              map (\<lambda>x. (ByCancel p, x, reason_or_default p (arg0 args)))
                (filter (\<lambda>el. el \<noteq> l) (listeners d)) \<and>
            (\<forall>ev \<in> set evs. fst (snd (invoked ev)) \<noteq> l))"
proof -
  let ?s = "ListenerSubscription p l"
  let ?d1 = "d\<lparr>listeners := listeners d @ [l]\<rparr>"
  let ?d2 = "d\<lparr>listeners := listeners d @ [l, l]\<rparr>"
  let ?d3 = "d\<lparr>listeners := filter (\<lambda>el. el \<noteq> l) (listeners d)\<rparr>"
  let ?w1 = "snd (subscribe p l w)"
  let ?w2 = "snd (subscribe p l ?w1)"
  let ?w3 = "unsubscribe ?s ?w2"
  let ?r = "reason_or_default p (arg0 args)"
  have s1: "subscribe p l w = (Returns ?s, store p ?d1 w)"
    using assms(1,3) by (rule subscribe_pending)
  have l1: "lookup ?w1 p = Some ?d1"
    unfolding s1 using assms(1) by (simp add: lookup_store_same)
  have s2: "subscribe p l ?w1 = (Returns ?s, store p ?d2 w)"
    using subscribe_pending[OF l1, of l] assms(3) by (simp add: s1)
  have l2: "lookup ?w2 p = Some ?d2"
    unfolding s2 using assms(1) by (simp add: lookup_store_same)
  have w3: "?w3 = store p ?d3 w"
    using unsubscribe_pending[OF l2, of l] assms(4)
    by (simp add: s2 strict_neq_function del: unsubscribe.simps)
  have l3: "lookup ?w3 p = Some ?d3"
    unfolding w3 using assms(1) by (rule lookup_store_same)
  have c3: "callback ?d3"
    using assms(2) by simp
  obtain evs where evs: "calls (snd (cancel p args ?w3)) = calls ?w3 @ evs"
    "map invoked evs = map (\<lambda>x. (ByCancel p, x, ?r)) (listeners ?d3)"
    using cancel_calls[OF l3 c3, of args] by blast
  have "fst (snd (invoked ev)) \<noteq> l" if "ev \<in> set evs" for ev
  proof -
    have "invoked ev \<in> set (map invoked evs)"
      using that by simp
    then show ?thesis
      unfolding evs(2) by auto
  qed
  moreover have "calls ?w3 = calls w"
    unfolding w3 by simp
  ultimately have "\<exists>evs. calls (snd (cancel p args ?w3)) = calls w @ evs \<and>
      map invoked evs = map (\<lambda>x. (ByCancel p, x, ?r)) (filter (\<lambda>el. el \<noteq> l) (listeners d)) \<and>
      (\<forall>ev \<in> set evs. fst (snd (invoked ev)) \<noteq> l)"
    using evs by (auto simp del: unsubscribe.simps)
  moreover have "fst (subscribe p l w) = Returns ?s"
    by (simp only: s1 fst_conv)
  moreover have "fst (subscribe p l ?w1) = Returns ?s"
    by (simp only: s2 fst_conv)
  ultimately show ?thesis
    using l2 l3 by blast
qed

theorem C10_witness:
  "lookup (unsubscribe (ListenerSubscription 1 (UserFn 7 []))
            (snd (subscribe 1 (UserFn 7 []) (snd (subscribe 1 (UserFn 7 []) two_listeners))))) 1 =
     Some \<lparr>reason = Null, listeners = [UserFn 1 [], UserFn 2 []], callback = True\<rparr> \<and>
   map invoked (calls (snd (cancel 1 [] (unsubscribe (ListenerSubscription 1 (UserFn 7 []))
            (snd (subscribe 1 (UserFn 7 []) (snd (subscribe 1 (UserFn 7 []) two_listeners)))))))) =
     [(ByCancel 1, UserFn 1 [], ErrorV (DefaultOf 1) ''Operation Canceled''),
      (ByCancel 1, UserFn 2 [], ErrorV (DefaultOf 1) ''Operation Canceled'')]"
proof -
  let ?d = "\<lparr>reason = Null, listeners = [UserFn 1 [], UserFn 2 []], callback = True\<rparr>"
  have h: "lookup two_listeners 1 = Some ?d" "callback ?d" "\<not> truthy (reason ?d)"
    "is_function (UserFn 7 [])"
    by (simp_all add: two_listeners_eval lookup_def)
  note c = C10_unsubscribe_removes_every_occurrence[OF h, of "[]"]
  then obtain evs where
    "calls (snd (cancel 1 [] (unsubscribe (ListenerSubscription 1 (UserFn 7 []))
            (snd (subscribe 1 (UserFn 7 []) (snd (subscribe 1 (UserFn 7 []) two_listeners))))))) =
       calls two_listeners @ evs"
    "map invoked evs = map (\<lambda>x. (ByCancel 1, x, reason_or_default 1 (arg0 [])))
       (filter (\<lambda>el. el \<noteq> UserFn 7 []) (listeners ?d))"
    by blast
  with c show ?thesis
    by (simp add: two_listeners_eval reason_or_default_def del: unsubscribe.simps)
qed

end
